theory Spec2Isabelle
  imports Main
begin

section \<open>Values, nodes and the store\<close>

text \<open>
  The development embeds \<^verbatim>\<open>src/data-structures/iterator-based-linked-list.js\<close>
  (classes \<^verbatim>\<open>Node\<close>, \<^verbatim>\<open>UltimateLinkedList\<close>, \<^verbatim>\<open>Transaction\<close>).

  \<^item> A JavaScript value is an \<open>'a option\<close>; \<open>None\<close> is \<^verbatim>\<open>undefined\<close>.
  \<^item> A reference to a \<^verbatim>\<open>Node\<close> is an \<open>addr option\<close>; \<open>None\<close> is \<^verbatim>\<open>null\<close>.
    Reading or writing a property of \<^verbatim>\<open>null\<close> throws a \<^verbatim>\<open>TypeError\<close>.
  \<^item> Numbers are integers (\<open>int\<close>); \<^verbatim>\<open>NaN\<close> and fractional indices are outside the model.
  \<^item> An operation returns \<open>None\<close> when it does not terminate, \<open>Some (Inl e)\<close> when it
    throws \<open>e\<close>, and \<open>Some (Inr r)\<close> when it returns \<open>r\<close> (with the updated objects).
    The state left behind by a throw is not tracked.
  \<^item> A listener is known by a number; calling it is recorded in the trace \<open>delivered\<close>.
    Listeners neither throw nor call back into the container.
  \<^item> Names are the source's. Where a name is taken in HOL it carries a suffix or is
    shortened: \<^verbatim>\<open>set\<close>, \<^verbatim>\<open>append\<close>, \<^verbatim>\<open>remove\<close>, \<^verbatim>\<open>sort\<close>, \<^verbatim>\<open>concat\<close> are \<open>setL\<close>,
    \<open>appendL\<close>, \<open>removeL\<close>, \<open>sortL\<close>, \<open>concatL\<close>; \<^verbatim>\<open>_size\<close> is \<open>lsize\<close>; the node fields
    \<^verbatim>\<open>value\<close>, \<^verbatim>\<open>next\<close>, \<^verbatim>\<open>prev\<close> are \<open>val\<close>, \<open>nxt\<close>, \<open>prv\<close>; the methods of a transaction
    are \<open>txn_begin\<close>, \<open>txn_commit\<close>, \<open>txn_rollback\<close>.
\<close>

type_synonym addr = nat

datatype error = RangeError | TypeError | ConcurrentModification

type_synonym 'r res = "(error + 'r) option"

definition ok :: "'r \<Rightarrow> 'r res" where
  "ok r = Some (Inr r)"

definition throw :: "error \<Rightarrow> 'r res" where
  "throw e = Some (Inl e)"

definition bindR :: "'r res \<Rightarrow> ('r \<Rightarrow> 's res) \<Rightarrow> 's res" where
  "bindR m f = (case m of None \<Rightarrow> None | Some (Inl e) \<Rightarrow> Some (Inl e) | Some (Inr r) \<Rightarrow> f r)"

record 'a node =
  val :: "'a option"
  nxt :: "addr option"
  prv :: "addr option"
  skip :: "addr option"
  insertionIndex :: int

definition newNode :: "'a option \<Rightarrow> 'a node" where
  "newNode v = \<lparr>val = v, nxt = None, prv = None, skip = None, insertionIndex = 0\<rparr>"

datatype 'a event =
    Add "'a option"
  | Remove "'a option"
  | Update int "'a option" "'a option"
  | Clear int
  | Reverse
  | Concat int
  | Sort
  | Rollback

text \<open>A \<^verbatim>\<open>Transaction\<close> object; its \<^verbatim>\<open>_list\<close> is the container passed to its methods.
  The snapshot holds the two copied sentinel objects and the size.\<close>

record 'a txn =
  snapshot :: "(addr \<times> addr \<times> int) option"
  active :: bool
  events :: "'a event list"

text \<open>The store: the \<^verbatim>\<open>Node\<close> objects, the \<^verbatim>\<open>Transaction\<close> objects, and the trace of
  listener calls \<open>(listener, event)\<close> in the order they were made.\<close>

record 'a world =
  cells :: "addr \<Rightarrow> 'a node"
  fresh :: addr
  txns :: "nat \<Rightarrow> 'a txn"
  txn_fresh :: nat
  delivered :: "(nat \<times> 'a event) list"

text \<open>The fields of an \<^verbatim>\<open>UltimateLinkedList\<close> object (\<^verbatim>\<open>_head\<close>, \<^verbatim>\<open>_tail\<close>, \<^verbatim>\<open>_size\<close>, ...).\<close>

record ulist =
  head :: addr
  tail :: addr
  lsize :: int
  useSkipLinks :: bool
  observable :: bool
  listeners :: "nat list"
  transaction :: "nat option"
  modCount :: int

definition empty_world :: "'a world" where
  "empty_world = \<lparr>cells = (\<lambda>_. newNode None), fresh = 0,
     txns = (\<lambda>_. \<lparr>snapshot = None, active = False, events = []\<rparr>), txn_fresh = 0,
     delivered = []\<rparr>"

section \<open>Arithmetic helpers\<close>

text \<open>\<^verbatim>\<open>Math.floor(Math.sqrt(n))\<close> for a non-negative integer \<open>n\<close>, by upward search.\<close>

function isqrt_up :: "nat \<Rightarrow> nat \<Rightarrow> nat" where
  "isqrt_up n r = (if (r + 1) * (r + 1) \<le> n then isqrt_up n (r + 1) else r)"
  by pat_completeness auto
termination
proof (relation "measure (\<lambda>(n, r). n - r)")
  show "wf (measure (\<lambda>(n, r). n - r))" by simp
next
  fix n r :: nat
  assume a: "(r + 1) * (r + 1) \<le> n"
  have "r + 1 \<le> (r + 1) * (r + 1)" by simp
  with a have "r < n" by linarith
  then show "((n, r + 1), (n, r)) \<in> measure (\<lambda>(n, r). n - r)" by simp
qed

declare isqrt_up.simps [simp del]

definition floor_sqrt :: "int \<Rightarrow> int" where
  "floor_sqrt n = int (isqrt_up (nat n) 0)"

text \<open>The test \<^verbatim>\<open>s % Math.floor(Math.sqrt(r)) === 0\<close>. For \<open>r < 1\<close> the divisor is
  \<^verbatim>\<open>0\<close> or \<^verbatim>\<open>NaN\<close>, the remainder is \<^verbatim>\<open>NaN\<close> and the test is false.\<close>

definition rebuildDue :: "int \<Rightarrow> int \<Rightarrow> bool" where
  "rebuildDue s r = (1 \<le> r \<and> s mod floor_sqrt r = 0)"

section \<open>Node store operations\<close>

text \<open>\<^verbatim>\<open>_notify(event)\<close>: buffer into the attached transaction, else call every listener.\<close>

definition notify :: "'a event \<Rightarrow> ulist \<Rightarrow> 'a world \<Rightarrow> 'a world" where
  "notify ev l w = (case transaction l of
       Some t \<Rightarrow> w\<lparr>txns := (txns w)(t := (txns w t)\<lparr>events := events (txns w t) @ [ev]\<rparr>)\<rparr>
     | None \<Rightarrow> w\<lparr>delivered := delivered w @ map (\<lambda>k. (k, ev)) (listeners l)\<rparr>)"

text \<open>\<^verbatim>\<open>_addNodeAfter(prev, value)\<close>.\<close>

definition addNodeAfter ::
  "addr option \<Rightarrow> 'a option \<Rightarrow> ulist \<Rightarrow> 'a world \<Rightarrow> (addr \<times> ulist \<times> 'a world) res" where
  "addNodeAfter prev v l w =
     (case prev of None \<Rightarrow> throw TypeError | Some p \<Rightarrow>
      (case nxt (cells w p) of None \<Rightarrow> throw TypeError | Some n \<Rightarrow>
        (let a = fresh w;
             c1 = (cells w)(a := (newNode v)\<lparr>prv := Some p, nxt := Some n\<rparr>);
             c2 = c1(p := (c1 p)\<lparr>nxt := Some a\<rparr>);
             c3 = c2(n := (c2 n)\<lparr>prv := Some a\<rparr>);
             c4 = c3(a := (c3 a)\<lparr>insertionIndex := modCount l\<rparr>);
             l' = l\<lparr>lsize := lsize l + 1\<rparr>;
             w' = w\<lparr>cells := c4, fresh := Suc a\<rparr>
         in ok (a, l',
              if observable l' \<and> transaction l' = None then notify (Add v) l' w' else w'))))"

text \<open>\<^verbatim>\<open>_removeNode(node)\<close>.\<close>

definition removeNode ::
  "addr option \<Rightarrow> ulist \<Rightarrow> 'a world \<Rightarrow> ('a option \<times> ulist \<times> 'a world) res" where
  "removeNode node l w =
     (case node of None \<Rightarrow> throw TypeError | Some a \<Rightarrow>
      (case prv (cells w a) of None \<Rightarrow> throw TypeError | Some p \<Rightarrow>
       (case nxt (cells w a) of None \<Rightarrow> throw TypeError | Some n \<Rightarrow>
        (let c1 = (cells w)(p := (cells w p)\<lparr>nxt := Some n\<rparr>);
             c2 = c1(n := (c1 n)\<lparr>prv := Some p\<rparr>);
             v = val (c2 a);
             l' = l\<lparr>lsize := lsize l - 1\<rparr>;
             w' = w\<lparr>cells := c2\<rparr>
         in ok (v, l',
              if observable l' \<and> transaction l' = None then notify (Remove v) l' w' else w')))))"

section \<open>The skip-link index\<close>

text \<open>The inner loop of \<^verbatim>\<open>_updateSkipLinks\<close>:
  \<^verbatim>\<open>for (let i = 0; i < skipDistance && target !== this._tail; i++) target = target.next\<close>.\<close>

fun skipTarget :: "nat \<Rightarrow> addr \<Rightarrow> (addr \<Rightarrow> 'a node) \<Rightarrow> addr option \<Rightarrow> (addr option) res" where
  "skipTarget 0 tailp c target = ok target"
| "skipTarget (Suc k) tailp c target =
     (if target = Some tailp then ok target
      else case target of None \<Rightarrow> throw TypeError
           | Some t \<Rightarrow> skipTarget k tailp c (nxt (c t)))"

text \<open>The outer loop \<^verbatim>\<open>while (node !== this._tail)\<close> of \<^verbatim>\<open>_updateSkipLinks\<close>.\<close>

partial_function (option) updateSkipLinks_loop ::
  "nat \<Rightarrow> addr \<Rightarrow> (addr \<Rightarrow> 'a node) \<Rightarrow> addr option \<Rightarrow> nat \<Rightarrow> (error + (addr \<Rightarrow> 'a node)) option" where
  "updateSkipLinks_loop sd tailp c node count =
     (if node = Some tailp then Some (Inr c)
      else case node of None \<Rightarrow> Some (Inl TypeError)
      | Some a \<Rightarrow>
          if count mod sd = 0 then
            (case skipTarget sd tailp c (Some a) of
               None \<Rightarrow> None
             | Some (Inl e) \<Rightarrow> Some (Inl e)
             | Some (Inr t) \<Rightarrow>
                 updateSkipLinks_loop sd tailp (c(a := (c a)\<lparr>skip := t\<rparr>)) (nxt (c a)) (count + 1))
          else updateSkipLinks_loop sd tailp c (nxt (c a)) (count + 1))"

declare updateSkipLinks_loop.simps [code]

definition updateSkipLinks :: "ulist \<Rightarrow> 'a world \<Rightarrow> ('a world) res" where
  "updateSkipLinks l w =
     (if \<not> useSkipLinks l \<or> lsize l < 8 then ok w
      else let skipDistance = max 2 (floor_sqrt (lsize l)) in
        bindR (updateSkipLinks_loop (nat skipDistance) (tail l) (cells w)
                 (nxt (cells w (head l))) 0)
              (\<lambda>c. ok (w\<lparr>cells := c\<rparr>)))"

section \<open>Seeking\<close>

text \<open>\<^verbatim>\<open>node = node.next\<close> repeated \<open>k\<close> times, and the same for \<^verbatim>\<open>prev\<close>.\<close>

fun walkNext :: "nat \<Rightarrow> (addr \<Rightarrow> 'a node) \<Rightarrow> addr option \<Rightarrow> (addr option) res" where
  "walkNext 0 c node = ok node"
| "walkNext (Suc k) c node =
     (case node of None \<Rightarrow> throw TypeError | Some a \<Rightarrow> walkNext k c (nxt (c a)))"

fun walkPrev :: "nat \<Rightarrow> (addr \<Rightarrow> 'a node) \<Rightarrow> addr option \<Rightarrow> (addr option) res" where
  "walkPrev 0 c node = ok node"
| "walkPrev (Suc k) c node =
     (case node of None \<Rightarrow> throw TypeError | Some a \<Rightarrow> walkPrev k c (prv (c a)))"

text \<open>The fast-forward loop of \<^verbatim>\<open>_nodeAt\<close>:
  \<^verbatim>\<open>while (node.skip && idx + Math.floor(Math.sqrt(this._size)) <= index)\<close>.\<close>

partial_function (option) skipForward ::
  "int \<Rightarrow> int \<Rightarrow> (addr \<Rightarrow> 'a node) \<Rightarrow> addr option \<Rightarrow> int \<Rightarrow> (error + addr option \<times> int) option" where
  "skipForward sd index c node idx =
     (case node of None \<Rightarrow> Some (Inl TypeError)
      | Some a \<Rightarrow>
          if skip (c a) \<noteq> None \<and> idx + sd \<le> index
          then skipForward sd index c (skip (c a)) (idx + sd)
          else Some (Inr (node, idx)))"

declare skipForward.simps [code]

text \<open>\<^verbatim>\<open>_nodeAt(index)\<close>, returning \<^verbatim>\<open>{node, index}\<close>. In the branch through the skip-links
  the loop \<^verbatim>\<open>while (idx < index) { node = node.next; idx++ }\<close> takes \<open>index - idx\<close> steps
  and leaves \<^verbatim>\<open>idx\<close> at the larger of \<^verbatim>\<open>idx\<close> and \<^verbatim>\<open>index\<close>.\<close>

definition nodeAt :: "int \<Rightarrow> ulist \<Rightarrow> 'a world \<Rightarrow> (addr option \<times> int) res" where
  "nodeAt index0 l w =
     (let index = (if index0 < 0 then lsize l + index0 else index0) in
      if index < 0 \<or> index \<ge> lsize l then ok (None, -1)
      else if 2 * index \<le> lsize l then
        (if useSkipLinks l \<and> lsize l \<ge> 8 then
           bindR (skipForward (floor_sqrt (lsize l)) index (cells w) (nxt (cells w (head l))) 0)
             (\<lambda>(node, idx). bindR (walkNext (nat (index - idx)) (cells w) node)
                (\<lambda>node'. ok (node', if idx < index then index else idx)))
         else bindR (walkNext (nat index) (cells w) (nxt (cells w (head l))))
                (\<lambda>node. ok (node, index)))
      else bindR (walkPrev (nat (lsize l - 1 - index)) (cells w) (prv (cells w (tail l))))
             (\<lambda>node. ok (node, index)))"

text \<open>\<^verbatim>\<open>get(index)\<close>.\<close>

definition get :: "int \<Rightarrow> ulist \<Rightarrow> 'a world \<Rightarrow> ('a option) res" where
  "get index l w =
     bindR (nodeAt index l w)
       (\<lambda>(node, _). ok (case node of None \<Rightarrow> None | Some a \<Rightarrow> val (cells w a)))"

text \<open>\<^verbatim>\<open>set(index, value)\<close>.\<close>

definition setL :: "int \<Rightarrow> 'a option \<Rightarrow> ulist \<Rightarrow> 'a world \<Rightarrow> (bool \<times> ulist \<times> 'a world) res" where
  "setL index v l w =
     bindR (nodeAt index l w)
       (\<lambda>(node, _). case node of None \<Rightarrow> ok (False, l, w)
          | Some a \<Rightarrow>
             (let oldValue = val (cells w a);
                  w1 = w\<lparr>cells := (cells w)(a := (cells w a)\<lparr>val := v\<rparr>)\<rparr>
              in ok (True, l, if observable l then notify (Update index oldValue v) l w1 else w1)))"

section \<open>Transactions and listeners\<close>

text \<open>\<^verbatim>\<open>Transaction.begin()\<close>: the snapshot holds shallow copies \<^verbatim>\<open>{ ...this._list._head }\<close> and
  \<^verbatim>\<open>{ ...this._list._tail }\<close> of the two sentinel objects, which are new objects.\<close>

definition txn_begin :: "nat \<Rightarrow> ulist \<Rightarrow> 'a world \<Rightarrow> 'a world" where
  "txn_begin t l w =
     (if active (txns w t) then w
      else let h' = fresh w;
               t' = Suc (fresh w);
               c1 = (cells w)(h' := cells w (head l));
               c2 = c1(t' := c1 (tail l))
           in w\<lparr>cells := c2, fresh := Suc (Suc (fresh w)),
                txns := (txns w)(t := (txns w t)\<lparr>active := True,
                                     snapshot := Some (h', t', lsize l)\<rparr>)\<rparr>)"

text \<open>\<^verbatim>\<open>Transaction.commit()\<close>.\<close>

definition txn_commit :: "nat \<Rightarrow> ulist \<Rightarrow> 'a world \<Rightarrow> ulist \<times> 'a world" where
  "txn_commit t l w =
     (if \<not> active (txns w t) then (l, w)
      else (l\<lparr>transaction := None\<rparr>,
            w\<lparr>txns := (txns w)(t := (txns w t)\<lparr>active := False, events := []\<rparr>),
              delivered := delivered w @
                 List.concat (map (\<lambda>ev. map (\<lambda>k. (k, ev)) (listeners l)) (events (txns w t)))\<rparr>))"

text \<open>\<^verbatim>\<open>Transaction.rollback()\<close>.\<close>

definition txn_rollback :: "nat \<Rightarrow> ulist \<Rightarrow> 'a world \<Rightarrow> ulist \<times> 'a world" where
  "txn_rollback t l w =
     (if \<not> active (txns w t) then (l, w)
      else case snapshot (txns w t) of
        None \<Rightarrow> (l, w)
      | Some (h', t', s) \<Rightarrow>
          (l\<lparr>head := h', tail := t', lsize := s, transaction := None\<rparr>,
           w\<lparr>txns := (txns w)(t := (txns w t)\<lparr>active := False, events := []\<rparr>),
             delivered := delivered w @ map (\<lambda>k. (k, Rollback)) (listeners l)\<rparr>))"

text \<open>\<^verbatim>\<open>beginTransaction()\<close>, returning the transaction's handle.\<close>

definition beginTransaction :: "ulist \<Rightarrow> 'a world \<Rightarrow> nat \<times> ulist \<times> 'a world" where
  "beginTransaction l w =
     (case transaction l of
        Some t \<Rightarrow> (t, l, w)
      | None \<Rightarrow>
          (let t = txn_fresh w
           in (t, l\<lparr>transaction := Some t\<rparr>,
               w\<lparr>txns := (txns w)(t := \<lparr>snapshot = None, active = False, events = []\<rparr>),
                 txn_fresh := Suc t\<rparr>)))"

text \<open>\<^verbatim>\<open>addChangeListener(listener)\<close> and the deregistration function it returns.\<close>

definition addChangeListener :: "nat \<Rightarrow> ulist \<Rightarrow> ulist" where
  "addChangeListener k l = l\<lparr>listeners := listeners l @ [k]\<rparr>"

definition removeChangeListener :: "nat \<Rightarrow> ulist \<Rightarrow> ulist" where
  "removeChangeListener k l = l\<lparr>listeners := remove1 k (listeners l)\<rparr>"

section \<open>Mutations\<close>

text \<open>The tail of \<^verbatim>\<open>append\<close>, \<^verbatim>\<open>prepend\<close> and \<^verbatim>\<open>insertAt\<close>:
  \<^verbatim>\<open>if (this._useSkipLinks && this._size % Math.floor(Math.sqrt(this._size)) === 0) this._updateSkipLinks()\<close>.\<close>

definition amortizedUpdate :: "ulist \<Rightarrow> 'a world \<Rightarrow> (ulist \<times> 'a world) res" where
  "amortizedUpdate l w =
     (if useSkipLinks l \<and> rebuildDue (lsize l) (lsize l)
      then bindR (updateSkipLinks l w) (\<lambda>w'. ok (l, w'))
      else ok (l, w))"

text \<open>\<^verbatim>\<open>append(value)\<close> and \<^verbatim>\<open>prepend(value)\<close>.\<close>

definition appendL :: "'a option \<Rightarrow> ulist \<Rightarrow> 'a world \<Rightarrow> (ulist \<times> 'a world) res" where
  "appendL v l w =
     (let l1 = l\<lparr>modCount := modCount l + 1\<rparr>
      in bindR (addNodeAfter (prv (cells w (tail l1))) v l1 w)
           (\<lambda>(_, l2, w2). amortizedUpdate l2 w2))"

definition prepend :: "'a option \<Rightarrow> ulist \<Rightarrow> 'a world \<Rightarrow> (ulist \<times> 'a world) res" where
  "prepend v l w =
     (let l1 = l\<lparr>modCount := modCount l + 1\<rparr>
      in bindR (addNodeAfter (Some (head l1)) v l1 w)
           (\<lambda>(_, l2, w2). amortizedUpdate l2 w2))"

text \<open>\<^verbatim>\<open>push(...values)\<close>: the loop, then the whole method, returning the new length.\<close>

fun push_loop :: "'a option list \<Rightarrow> ulist \<Rightarrow> 'a world \<Rightarrow> (ulist \<times> 'a world) res" where
  "push_loop [] l w = ok (l, w)"
| "push_loop (v # vs) l w =
     bindR (addNodeAfter (prv (cells w (tail l))) v l w) (\<lambda>(_, l', w'). push_loop vs l' w')"

definition push :: "'a option list \<Rightarrow> ulist \<Rightarrow> 'a world \<Rightarrow> (int \<times> ulist \<times> 'a world) res" where
  "push vs l w =
     (let l1 = l\<lparr>modCount := modCount l + 1\<rparr>;
          w1 = (case transaction l1 of Some t \<Rightarrow> txn_begin t l1 w | None \<Rightarrow> w)
      in bindR (push_loop vs l1 w1)
           (\<lambda>(l2, w2). bindR (if useSkipLinks l2 \<and> vs \<noteq> [] then updateSkipLinks l2 w2 else ok w2)
              (\<lambda>w3. let (l4, w4) = (case transaction l2 of Some t \<Rightarrow> txn_commit t l2 w3
                                      | None \<Rightarrow> (l2, w3))
                     in ok (lsize l4, l4, w4))))"

text \<open>\<^verbatim>\<open>unshift(...values)\<close>.\<close>

fun unshift_loop :: "'a option list \<Rightarrow> ulist \<Rightarrow> 'a world \<Rightarrow> (ulist \<times> 'a world) res" where
  "unshift_loop [] l w = ok (l, w)"
| "unshift_loop (v # vs) l w =
     bindR (addNodeAfter (Some (head l)) v l w) (\<lambda>(_, l', w'). unshift_loop vs l' w')"

definition unshift :: "'a option list \<Rightarrow> ulist \<Rightarrow> 'a world \<Rightarrow> (int \<times> ulist \<times> 'a world) res" where
  "unshift vs l w =
     (let l1 = l\<lparr>modCount := modCount l + 1\<rparr>;
          w1 = (case transaction l1 of Some t \<Rightarrow> txn_begin t l1 w | None \<Rightarrow> w)
      in bindR (unshift_loop (rev vs) l1 w1)
           (\<lambda>(l2, w2). bindR (if useSkipLinks l2 \<and> vs \<noteq> [] then updateSkipLinks l2 w2 else ok w2)
              (\<lambda>w3. let (l4, w4) = (case transaction l2 of Some t \<Rightarrow> txn_commit t l2 w3
                                      | None \<Rightarrow> (l2, w3))
                     in ok (lsize l4, l4, w4))))"

text \<open>\<^verbatim>\<open>pop()\<close> and \<^verbatim>\<open>shift()\<close>.\<close>

definition pop :: "ulist \<Rightarrow> 'a world \<Rightarrow> ('a option \<times> ulist \<times> 'a world) res" where
  "pop l w =
     (if lsize l = 0 then ok (None, l, w)
      else let l1 = l\<lparr>modCount := modCount l + 1\<rparr>
           in removeNode (prv (cells w (tail l1))) l1 w)"

definition shift :: "ulist \<Rightarrow> 'a world \<Rightarrow> ('a option \<times> ulist \<times> 'a world) res" where
  "shift l w =
     (if lsize l = 0 then ok (None, l, w)
      else let l1 = l\<lparr>modCount := modCount l + 1\<rparr>
           in removeNode (nxt (cells w (head l1))) l1 w)"

text \<open>\<^verbatim>\<open>insertAt(value, index)\<close>; the default \<^verbatim>\<open>index = this._size\<close> is the caller's.\<close>

definition insertAt :: "'a option \<Rightarrow> int \<Rightarrow> ulist \<Rightarrow> 'a world \<Rightarrow> (ulist \<times> 'a world) res" where
  "insertAt v index0 l w =
     (let index = (if index0 < 0 then lsize l + index0 + 1 else index0)
      in if index < 0 \<or> index > lsize l then throw RangeError
         else let l1 = l\<lparr>modCount := modCount l + 1\<rparr>
              in if index = 0 then prepend v l1 w
                 else if index = lsize l1 then appendL v l1 w
                 else bindR (nodeAt (index - 1) l1 w)
                        (\<lambda>(node, _). bindR (addNodeAfter node v l1 w)
                           (\<lambda>(_, l2, w2). amortizedUpdate l2 w2)))"

text \<open>\<^verbatim>\<open>removeAt(index)\<close>.\<close>

definition removeAt :: "int \<Rightarrow> ulist \<Rightarrow> 'a world \<Rightarrow> ('a option \<times> ulist \<times> 'a world) res" where
  "removeAt index l w =
     bindR (nodeAt index l w)
       (\<lambda>(node, _). case node of None \<Rightarrow> ok (None, l, w)
          | Some a \<Rightarrow>
             (let l1 = l\<lparr>modCount := modCount l + 1\<rparr>
              in bindR (removeNode (Some a) l1 w)
                   (\<lambda>(v, l2, w2).
                      if useSkipLinks l2 \<and> lsize l2 > 0 \<and> rebuildDue (lsize l2) (lsize l2 * 2)
                      then bindR (updateSkipLinks l2 w2) (\<lambda>w3. ok (v, l2, w3))
                      else ok (v, l2, w2))))"

text \<open>\<^verbatim>\<open>remove(value, comparator)\<close>: the scan from \<^verbatim>\<open>this._head.next\<close>.\<close>

partial_function (option) remove_loop ::
  "('a option \<Rightarrow> 'a option \<Rightarrow> bool) \<Rightarrow> 'a option \<Rightarrow> ulist \<Rightarrow> 'a world \<Rightarrow> addr option
     \<Rightarrow> (error + 'a option \<times> ulist \<times> 'a world) option" where
  "remove_loop comparator v l w node =
     (if node = Some (tail l) then Some (Inr (None, l, w))
      else case node of None \<Rightarrow> Some (Inl TypeError)
      | Some a \<Rightarrow>
          if comparator (val (cells w a)) v
          then removeNode (Some a) (l\<lparr>modCount := modCount l + 1\<rparr>) w
          else remove_loop comparator v l w (nxt (cells w a)))"

declare remove_loop.simps [code]

definition removeL ::
  "'a option \<Rightarrow> ('a option \<Rightarrow> 'a option \<Rightarrow> bool) \<Rightarrow> ulist \<Rightarrow> 'a world
     \<Rightarrow> ('a option \<times> ulist \<times> 'a world) res" where
  "removeL v comparator l w = remove_loop comparator v l w (nxt (cells w (head l)))"

text \<open>\<^verbatim>\<open>clear()\<close>.\<close>

definition clear :: "ulist \<Rightarrow> 'a world \<Rightarrow> ulist \<times> 'a world" where
  "clear l w =
     (if lsize l = 0 then (l, w)
      else let l1 = l\<lparr>modCount := modCount l + 1\<rparr>;
               w1 = (if observable l1 then notify (Clear (lsize l1)) l1 w else w);
               c1 = (cells w1)(head l1 := (cells w1 (head l1))\<lparr>nxt := Some (tail l1)\<rparr>);
               c2 = c1(tail l1 := (c1 (tail l1))\<lparr>prv := Some (head l1)\<rparr>)
           in (l1\<lparr>lsize := 0\<rparr>, w1\<lparr>cells := c2\<rparr>))"

text \<open>\<^verbatim>\<open>reverse()\<close>: the pointer-swapping loop \<^verbatim>\<open>while (node !== null)\<close>, then the method.\<close>

partial_function (option) reverse_loop ::
  "(addr \<Rightarrow> 'a node) \<Rightarrow> addr option \<Rightarrow> (addr \<Rightarrow> 'a node) option" where
  "reverse_loop c node =
     (case node of None \<Rightarrow> Some c
      | Some a \<Rightarrow> reverse_loop (c(a := (c a)\<lparr>nxt := prv (c a), prv := nxt (c a)\<rparr>)) (nxt (c a)))"

declare reverse_loop.simps [code]

definition reverse :: "ulist \<Rightarrow> 'a world \<Rightarrow> (ulist \<times> 'a world) res" where
  "reverse l w =
     (if lsize l < 2 then ok (l, w)
      else let l1 = l\<lparr>modCount := modCount l + 1\<rparr>
           in case reverse_loop (cells w) (Some (head l1)) of
                None \<Rightarrow> None
              | Some c \<Rightarrow>
                 (let l2 = l1\<lparr>head := tail l1, tail := head l1\<rparr>;
                      w2 = w\<lparr>cells := c\<rparr>
                  in bindR (if useSkipLinks l2 then updateSkipLinks l2 w2 else ok w2)
                       (\<lambda>w3. ok (l2, if observable l2 then notify Reverse l2 w3 else w3))))"

section \<open>Queries, sorting and concatenation\<close>

text \<open>\<^verbatim>\<open>toArray()\<close>: \<^verbatim>\<open>new Array(this._size)\<close> throws a \<^verbatim>\<open>RangeError\<close> for a negative size; the
  array grows when the walk meets more nodes than \<^verbatim>\<open>_size\<close>, and keeps \<^verbatim>\<open>undefined\<close>
  slots when it meets fewer.\<close>

partial_function (option) toArray_loop ::
  "addr \<Rightarrow> (addr \<Rightarrow> 'a node) \<Rightarrow> addr option \<Rightarrow> 'a option list \<Rightarrow> (error + 'a option list) option" where
  "toArray_loop tailp c node arr =
     (if node = Some tailp then Some (Inr arr)
      else case node of None \<Rightarrow> Some (Inl TypeError)
      | Some a \<Rightarrow> toArray_loop tailp c (nxt (c a)) (arr @ [val (c a)]))"

declare toArray_loop.simps [code]

definition toArray :: "ulist \<Rightarrow> 'a world \<Rightarrow> ('a option list) res" where
  "toArray l w =
     (if lsize l < 0 then throw RangeError
      else bindR (toArray_loop (tail l) (cells w) (nxt (cells w (head l))) [])
             (\<lambda>arr. ok (arr @ replicate (nat (lsize l) - length arr) None)))"

text \<open>\<^verbatim>\<open>Array.prototype.sort(comparefn)\<close> on an array without holes. The language requires
  the sort to be stable; for a comparator that is a consistent ordering every stable
  sort returns the list computed here (insertion from the right, an element going
  before the first one it does not exceed).\<close>

fun js_insert :: "('b \<Rightarrow> 'b \<Rightarrow> int) \<Rightarrow> 'b \<Rightarrow> 'b list \<Rightarrow> 'b list" where
  "js_insert comparefn x [] = [x]"
| "js_insert comparefn x (y # ys) =
     (if comparefn x y \<le> 0 then x # y # ys else y # js_insert comparefn x ys)"

definition js_sort :: "('b \<Rightarrow> 'b \<Rightarrow> int) \<Rightarrow> 'b list \<Rightarrow> 'b list" where
  "js_sort comparefn xs = foldr (js_insert comparefn) xs []"

text \<open>\<^verbatim>\<open>sort(compareFn)\<close>. The comparator is a parameter (the default, by string coercion, is
  one such function). First the loop collecting \<^verbatim>\<open>{value, insertionIndex}\<close>, then the
  loop writing the sorted values back.\<close>

partial_function (option) sort_collect ::
  "addr \<Rightarrow> (addr \<Rightarrow> 'a node) \<Rightarrow> addr option \<Rightarrow> ('a option \<times> int) list
     \<Rightarrow> (error + ('a option \<times> int) list) option" where
  "sort_collect tailp c node nodes =
     (if node = Some tailp then Some (Inr nodes)
      else case node of None \<Rightarrow> Some (Inl TypeError)
      | Some a \<Rightarrow> sort_collect tailp c (nxt (c a)) (nodes @ [(val (c a), insertionIndex (c a))]))"

declare sort_collect.simps [code]

fun sort_rewrite ::
  "('a option \<times> int) list \<Rightarrow> (addr \<Rightarrow> 'a node) \<Rightarrow> addr option \<Rightarrow> (addr \<Rightarrow> 'a node) res" where
  "sort_rewrite [] c node = ok c"
| "sort_rewrite (item # items) c node =
     (case node of None \<Rightarrow> throw TypeError
      | Some a \<Rightarrow> sort_rewrite items (c(a := (c a)\<lparr>val := fst item\<rparr>)) (nxt (c a)))"

definition compareWithIndex ::
  "('a option \<Rightarrow> 'a option \<Rightarrow> int) \<Rightarrow> ('a option \<times> int) \<Rightarrow> ('a option \<times> int) \<Rightarrow> int" where
  "compareWithIndex compareFn a b =
     (let result = compareFn (fst a) (fst b)
      in if result = 0 then snd a - snd b else result)"

definition sortL ::
  "('a option \<Rightarrow> 'a option \<Rightarrow> int) \<Rightarrow> ulist \<Rightarrow> 'a world \<Rightarrow> (ulist \<times> 'a world) res" where
  "sortL compareFn l w =
     (if lsize l \<le> 1 then ok (l, w)
      else let l1 = l\<lparr>modCount := modCount l + 1\<rparr>
           in bindR (toArray l1 w)
                (\<lambda>arr. bindR (sort_collect (tail l1) (cells w) (nxt (cells w (head l1))) [])
                   (\<lambda>nodes. bindR (sort_rewrite (js_sort (compareWithIndex compareFn) nodes)
                                      (cells w) (nxt (cells w (head l1))))
                      (\<lambda>c. let w1 = w\<lparr>cells := c\<rparr>
                           in ok (l1, if observable l1 then notify Sort l1 w1 else w1)))))"

text \<open>\<^verbatim>\<open>concat(other)\<close> for \<^verbatim>\<open>other instanceof UltimateLinkedList\<close>, \<open>other\<close> being another
  object than the receiver. (For any other iterable the method is \<^verbatim>\<open>push\<close>.)
  Returns the receiver and the donor.\<close>

definition concatL :: "ulist \<Rightarrow> ulist \<Rightarrow> 'a world \<Rightarrow> (ulist \<times> ulist \<times> 'a world) res" where
  "concatL l other w =
     (if lsize other = 0 then ok (l, other, w)
      else
        let l1 = l\<lparr>modCount := modCount l + 1\<rparr>;
            otherHead = nxt (cells w (head other));
            otherTail = prv (cells w (tail other));
            thisLast = prv (cells w (tail l1))
        in case thisLast of None \<Rightarrow> throw TypeError | Some lst \<Rightarrow>
           (case otherHead of None \<Rightarrow> throw TypeError | Some oh \<Rightarrow>
            (case otherTail of None \<Rightarrow> throw TypeError | Some ot \<Rightarrow>
              (let c1 = (cells w)(lst := (cells w lst)\<lparr>nxt := Some oh\<rparr>);
                   c2 = c1(oh := (c1 oh)\<lparr>prv := Some lst\<rparr>);
                   c3 = c2(ot := (c2 ot)\<lparr>nxt := Some (tail l1)\<rparr>);
                   c4 = c3(tail l1 := (c3 (tail l1))\<lparr>prv := Some ot\<rparr>);
                   l2 = l1\<lparr>lsize := lsize l1 + lsize other\<rparr>;
                   c5 = c4(head other := (c4 (head other))\<lparr>nxt := Some (tail other)\<rparr>);
                   c6 = c5(tail other := (c5 (tail other))\<lparr>prv := Some (head other)\<rparr>);
                   other' = other\<lparr>lsize := 0\<rparr>;
                   w1 = w\<lparr>cells := c6\<rparr>
               in bindR (if useSkipLinks l2 then updateSkipLinks l2 w1 else ok w1)
                    (\<lambda>w2. ok (l2, other',
                            if observable l2 then notify (Concat (lsize l2)) l2 w2 else w2))))))"

section \<open>Native iteration\<close>

text \<open>The object returned by \<^verbatim>\<open>[Symbol.iterator]()\<close>: the captured counter and the
  current node.\<close>

record iter =
  expectedModCount :: int
  it_node :: "addr option"

datatype 'a step = Done | Yield "'a option"

definition iterator :: "ulist \<Rightarrow> iter" where
  "iterator l = \<lparr>expectedModCount = modCount l, it_node = Some (head l)\<rparr>"

definition iter_next :: "iter \<Rightarrow> ulist \<Rightarrow> 'a world \<Rightarrow> ('a step \<times> iter) res" where
  "iter_next it l w =
     (if expectedModCount it \<noteq> modCount l then throw ConcurrentModification
      else case it_node it of None \<Rightarrow> throw TypeError
      | Some a \<Rightarrow>
          (let node = nxt (cells w a);
               it' = it\<lparr>it_node := node\<rparr>
           in if node = Some (tail l) then ok (Done, it')
              else case node of None \<Rightarrow> throw TypeError
                   | Some b \<Rightarrow> ok (Yield (val (cells w b)), it')))"

text \<open>Running an iterator to the end, as \<^verbatim>\<open>for (const value of list)\<close> and \<^verbatim>\<open>[...list]\<close> do,
  collecting the values yielded.\<close>

partial_function (option) iterate ::
  "iter \<Rightarrow> ulist \<Rightarrow> 'a world \<Rightarrow> 'a option list \<Rightarrow> (error + 'a option list) option" where
  "iterate it l w acc =
     (case iter_next it l w of
        None \<Rightarrow> None
      | Some (Inl e) \<Rightarrow> Some (Inl e)
      | Some (Inr (Done, it')) \<Rightarrow> Some (Inr acc)
      | Some (Inr (Yield v, it')) \<Rightarrow> iterate it' l w (acc @ [v]))"

declare iterate.simps [code]

section \<open>Construction\<close>

text \<open>\<^verbatim>\<open>new UltimateLinkedList(iterable, {skipLinks, observable})\<close>; \<open>None\<close> is no iterable.\<close>

definition construct ::
  "'a option list option \<Rightarrow> bool \<Rightarrow> bool \<Rightarrow> 'a world \<Rightarrow> (ulist \<times> 'a world) res" where
  "construct iterable skipLinks obs w =
     (let h = fresh w;
          t = Suc h;
          c1 = (cells w)(h := newNode None);
          c2 = c1(t := newNode None);
          c3 = c2(h := (c2 h)\<lparr>nxt := Some t\<rparr>);
          c4 = c3(t := (c3 t)\<lparr>prv := Some h\<rparr>);
          l = \<lparr>head = h, tail = t, lsize = 0, useSkipLinks = skipLinks, observable = obs,
               listeners = [], transaction = None, modCount = 0\<rparr>;
          w1 = w\<lparr>cells := c4, fresh := Suc t\<rparr>
      in bindR (case iterable of None \<Rightarrow> ok (l, w1)
                | Some vs \<Rightarrow> bindR (push vs l w1) (\<lambda>(_, l', w'). ok (l', w')))
           (\<lambda>(l2, w2). bindR (if useSkipLinks l2 then updateSkipLinks l2 w2 else ok w2)
              (\<lambda>w3. ok (l2, w3))))"

section \<open>The representation invariant\<close>

text \<open>\<open>adj c x y\<close>: in the store \<open>c\<close>, node \<open>y\<close> is the successor of \<open>x\<close> and \<open>x\<close> the
  predecessor of \<open>y\<close>. \<open>well_linked l w as\<close>: the nodes strictly between the sentinels of
  \<open>l\<close>, in order, are \<open>as\<close>. \<open>container l w as\<close> adds that \<^verbatim>\<open>_size\<close> counts them.\<close>

definition adj :: "(addr \<Rightarrow> 'a node) \<Rightarrow> addr \<Rightarrow> addr \<Rightarrow> bool" where
  "adj c x y = (nxt (c x) = Some y \<and> prv (c y) = Some x)"

definition well_linked :: "ulist \<Rightarrow> 'a world \<Rightarrow> addr list \<Rightarrow> bool" where
  "well_linked l w as =
     (let ns = head l # as @ [tail l]
      in successively (adj (cells w)) ns \<and> distinct ns \<and>
         prv (cells w (head l)) = None \<and> nxt (cells w (tail l)) = None \<and>
         list_all (\<lambda>a. a < fresh w) ns)"

definition container :: "ulist \<Rightarrow> 'a world \<Rightarrow> addr list \<Rightarrow> bool" where
  "container l w as = (well_linked l w as \<and> lsize l = int (length as))"

definition contents :: "'a world \<Rightarrow> addr list \<Rightarrow> 'a option list" where
  "contents w as = map (\<lambda>a. val (cells w a)) as"

text \<open>\<open>linear_seek l r\<close>: for the resolved index \<open>r\<close>, \<^verbatim>\<open>_nodeAt\<close> does not take its branch
  through the skip-links (which it takes when \<open>r \<le> size / 2\<close>, skip-links are enabled and
  the size is at least 8).\<close>

definition linear_seek :: "ulist \<Rightarrow> int \<Rightarrow> bool" where
  "linear_seek l r = (\<not> (2 * r \<le> lsize l \<and> useSkipLinks l \<and> 8 \<le> lsize l))"

text \<open>\<open>skip_only c c'\<close>: the stores \<open>c\<close> and \<open>c'\<close> differ in skip-links only.
  \<open>swapped n\<close>: the node \<open>n\<close> with its two links exchanged, as \<^verbatim>\<open>reverse()\<close> leaves it.\<close>

definition skip_only :: "(addr \<Rightarrow> 'a node) \<Rightarrow> (addr \<Rightarrow> 'a node) \<Rightarrow> bool" where
  "skip_only c c' = (\<forall>x. nxt (c' x) = nxt (c x) \<and> prv (c' x) = prv (c x) \<and>
                         val (c' x) = val (c x) \<and> insertionIndex (c' x) = insertionIndex (c x))"

definition swapped :: "'a node \<Rightarrow> 'a node" where
  "swapped n = n\<lparr>nxt := prv n, prv := nxt n\<rparr>"

section \<open>Example states and runs\<close>

text \<open>The store after \<^verbatim>\<open>new UltimateLinkedList([10, 20, 30], {skipLinks: false})\<close> followed by
  \<^verbatim>\<open>new UltimateLinkedList([40, 50], {skipLinks: false})\<close>, and the two containers.\<close>

definition ex_cells :: "addr \<Rightarrow> int node" where
  "ex_cells =
     (\<lambda>_. newNode None)
       (0 := \<lparr>val = None, nxt = Some 2, prv = None, skip = None, insertionIndex = 0\<rparr>,
        1 := \<lparr>val = None, nxt = None, prv = Some 4, skip = None, insertionIndex = 0\<rparr>,
        2 := \<lparr>val = Some 10, nxt = Some 3, prv = Some 0, skip = None, insertionIndex = 1\<rparr>,
        3 := \<lparr>val = Some 20, nxt = Some 4, prv = Some 2, skip = None, insertionIndex = 1\<rparr>,
        4 := \<lparr>val = Some 30, nxt = Some 1, prv = Some 3, skip = None, insertionIndex = 1\<rparr>,
        5 := \<lparr>val = None, nxt = Some 7, prv = None, skip = None, insertionIndex = 0\<rparr>,
        6 := \<lparr>val = None, nxt = None, prv = Some 8, skip = None, insertionIndex = 0\<rparr>,
        7 := \<lparr>val = Some 40, nxt = Some 8, prv = Some 5, skip = None, insertionIndex = 1\<rparr>,
        8 := \<lparr>val = Some 50, nxt = Some 6, prv = Some 7, skip = None, insertionIndex = 1\<rparr>)"

definition ex_world :: "int world" where
  "ex_world = \<lparr>cells = ex_cells, fresh = 9,
     txns = (\<lambda>_. \<lparr>snapshot = None, active = False, events = []\<rparr>), txn_fresh = 0,
     delivered = []\<rparr>"

definition ex_list :: ulist where
  "ex_list = \<lparr>head = 0, tail = 1, lsize = 3, useSkipLinks = False, observable = False,
     listeners = [], transaction = None, modCount = 1\<rparr>"

definition ex_donor :: ulist where
  "ex_donor = \<lparr>head = 5, tail = 6, lsize = 2, useSkipLinks = False, observable = False,
     listeners = [], transaction = None, modCount = 1\<rparr>"

text \<open>The store and the container after \<^verbatim>\<open>new UltimateLinkedList()\<close>.\<close>

definition ex_empty_world :: "int world" where
  "ex_empty_world = \<lparr>cells = (\<lambda>_. newNode None)
       (0 := \<lparr>val = None, nxt = Some 1, prv = None, skip = None, insertionIndex = 0\<rparr>,
        1 := \<lparr>val = None, nxt = None, prv = Some 0, skip = None, insertionIndex = 0\<rparr>),
     fresh = 2,
     txns = (\<lambda>_. \<lparr>snapshot = None, active = False, events = []\<rparr>), txn_fresh = 0,
     delivered = []\<rparr>"

definition ex_empty :: ulist where
  "ex_empty = \<lparr>head = 0, tail = 1, lsize = 0, useSkipLinks = True, observable = False,
     listeners = [], transaction = None, modCount = 0\<rparr>"

text \<open>\<^verbatim>\<open>[10, 20, 30]\<close>, \<^verbatim>\<open>beginTransaction()\<close>, \<^verbatim>\<open>begin()\<close>, \<^verbatim>\<open>push(40)\<close>, \<^verbatim>\<open>removeAt(0)\<close>,
  \<^verbatim>\<open>rollback()\<close>, \<^verbatim>\<open>toArray()\<close>; the same with \<^verbatim>\<open>append(40)\<close> for \<^verbatim>\<open>push(40)\<close>; and
  \<^verbatim>\<open>begin()\<close>, \<^verbatim>\<open>rollback()\<close>, \<^verbatim>\<open>toArray()\<close> with no mutation in between.\<close>

definition rollback_after_push :: "(int option list) res" where
  "rollback_after_push =
     bindR (construct (Some [Some 10, Some 20, Some 30]) True False empty_world) (\<lambda>(l0, w0).
       let (t, l1, w1) = beginTransaction l0 w0;
           w2 = txn_begin t l1 w1 in
       bindR (push [Some 40] l1 w2) (\<lambda>(_, l3, w3).
       bindR (removeAt 0 l3 w3) (\<lambda>(_, l4, w4).
       let (l5, w5) = txn_rollback t l4 w4 in toArray l5 w5)))"

definition rollback_after_append :: "(int option list) res" where
  "rollback_after_append =
     bindR (construct (Some [Some 10, Some 20, Some 30]) True False empty_world) (\<lambda>(l0, w0).
       let (t, l1, w1) = beginTransaction l0 w0;
           w2 = txn_begin t l1 w1 in
       bindR (appendL (Some 40) l1 w2) (\<lambda>(l3, w3).
       bindR (removeAt 0 l3 w3) (\<lambda>(_, l4, w4).
       let (l5, w5) = txn_rollback t l4 w4 in toArray l5 w5)))"

definition rollback_at_once :: "(int option list) res" where
  "rollback_at_once =
     bindR (construct (Some [Some 10, Some 20, Some 30]) True False empty_world) (\<lambda>(l0, w0).
       let (t, l1, w1) = beginTransaction l0 w0;
           w2 = txn_begin t l1 w1;
           (l5, w5) = txn_rollback t l1 w2
       in toArray l5 w5)"

text \<open>An observable \<^verbatim>\<open>[10, 20, 30]\<close> with listener 7: \<^verbatim>\<open>beginTransaction()\<close>, \<^verbatim>\<open>begin()\<close>,
  \<^verbatim>\<open>set(0, 99)\<close>, \<^verbatim>\<open>push(40)\<close>, \<^verbatim>\<open>removeAt(0)\<close>, \<^verbatim>\<open>commit()\<close>. The result is the trace of
  listener calls after \<^verbatim>\<open>set\<close>, the trace just before the caller's \<^verbatim>\<open>commit()\<close>, and the
  trace after it.\<close>

definition transaction_trace ::
  "((nat \<times> int event) list \<times> (nat \<times> int event) list \<times> (nat \<times> int event) list) res" where
  "transaction_trace =
     bindR (construct (Some [Some 10, Some 20, Some 30]) True True empty_world) (\<lambda>(l0, w0).
       let l1 = addChangeListener 7 l0;
           (t, l2, w2) = beginTransaction l1 w0;
           w3 = txn_begin t l2 w2 in
       bindR (setL 0 (Some 99) l2 w3) (\<lambda>(_, l4, w4).
       bindR (push [Some 40] l4 w4) (\<lambda>(_, l5, w5).
       bindR (removeAt 0 l5 w5) (\<lambda>(_, l6, w6).
       let (l7, w7) = txn_commit t l6 w6 in
       ok (delivered w4, delivered w6, delivered w7)))))"

text \<open>The same container: \<^verbatim>\<open>beginTransaction()\<close>, \<^verbatim>\<open>push(40)\<close>, \<^verbatim>\<open>removeAt(0)\<close>; the trace of
  listener calls before the caller ends the transaction.\<close>

definition example_trace :: "((nat \<times> int event) list) res" where
  "example_trace =
     bindR (construct (Some [Some 10, Some 20, Some 30]) True True empty_world) (\<lambda>(l0, w0).
       let l1 = addChangeListener 7 l0;
           (t, l2, w2) = beginTransaction l1 w0 in
       bindR (push [Some 40] l2 w2) (\<lambda>(_, l5, w5).
       bindR (removeAt 0 l5 w5) (\<lambda>(_, l6, w6). ok (delivered w6))))"

text \<open>Nine elements \<^verbatim>\<open>0..8\<close>, \<^verbatim>\<open>insertAt(100, 1)\<close>, then \<^verbatim>\<open>toArray()\<close> and \<^verbatim>\<open>get(3)\<close>, with
  the option \<^verbatim>\<open>skipLinks\<close> as given.\<close>

definition seek_scenario :: "bool \<Rightarrow> (int option list \<times> int option) res" where
  "seek_scenario skipLinks =
     bindR (construct (Some (map Some [0, 1, 2, 3, 4, 5, 6, 7, 8])) skipLinks False empty_world)
       (\<lambda>(l0, w0). bindR (insertAt (Some 100) 1 l0 w0)
          (\<lambda>(l1, w1). bindR (toArray l1 w1) (\<lambda>arr. bindR (get 3 l1 w1) (\<lambda>v. ok (arr, v)))))"

text \<open>Ten elements \<^verbatim>\<open>0..9\<close> with skip-links, \<^verbatim>\<open>removeAt(3)\<close> twice: the two values returned,
  \<^verbatim>\<open>_size\<close> and \<^verbatim>\<open>toArray()\<close>.\<close>

definition count_scenario :: "(int option \<times> int option \<times> int \<times> int option list) res" where
  "count_scenario =
     bindR (construct (Some (map Some [0, 1, 2, 3, 4, 5, 6, 7, 8, 9])) True False empty_world)
       (\<lambda>(l0, w0). bindR (removeAt 3 l0 w0)
          (\<lambda>(v1, l1, w1). bindR (removeAt 3 l1 w1)
          (\<lambda>(v2, l2, w2). bindR (toArray l2 w2) (\<lambda>arr. ok (v1, v2, lsize l2, arr)))))"

text \<open>A comparator on tagged values that looks at the key only, and the run
  \<^verbatim>\<open>append([1,'a'])\<close>, \<^verbatim>\<open>prepend([1,'b'])\<close>, \<^verbatim>\<open>sort(byKey)\<close>: the contents before and after.\<close>

definition byKey :: "(int \<times> string) option \<Rightarrow> (int \<times> string) option \<Rightarrow> int" where
  "byKey a b = (case (a, b) of (Some x, Some y) \<Rightarrow> fst x - fst y | _ \<Rightarrow> 0)"

definition sort_scenario ::
  "((int \<times> string) option list \<times> (int \<times> string) option list) res" where
  "sort_scenario =
     bindR (construct None True False empty_world) (\<lambda>(l0, w0).
     bindR (appendL (Some (1, ''a'')) l0 w0) (\<lambda>(l1, w1).
     bindR (prepend (Some (1, ''b'')) l1 w1) (\<lambda>(l2, w2).
     bindR (toArray l2 w2) (\<lambda>before.
     bindR (sortL byKey l2 w2) (\<lambda>(l3, w3).
     bindR (toArray l3 w3) (\<lambda>after. ok (before, after)))))))"

text \<open>\<^verbatim>\<open>[1, 2, 3]\<close>, \<^verbatim>\<open>insertAt(9, index)\<close>, \<^verbatim>\<open>toArray()\<close>.\<close>

definition insertAt_scenario :: "int \<Rightarrow> (int option list) res" where
  "insertAt_scenario index =
     bindR (construct (Some [Some 1, Some 2, Some 3]) True False empty_world)
       (\<lambda>(l0, w0). bindR (insertAt (Some 9) index l0 w0) (\<lambda>(l1, w1). toArray l1 w1))"

text \<open>\<^verbatim>\<open>[10, 20, 30]\<close>, \<^verbatim>\<open>set(0, 99)\<close>: the value returned and the modification counter
  before and after.\<close>

definition set_scenario :: "(bool \<times> int \<times> int) res" where
  "set_scenario =
     bindR (construct (Some [Some (10::int), Some 20, Some 30]) True False empty_world)
       (\<lambda>(l0, w0). bindR (setL 0 (Some 99) l0 w0)
          (\<lambda>(b, l1, w1). ok (b, modCount l0, modCount l1)))"

text \<open>\<^verbatim>\<open>[1, 2, 3]\<close>: an iterator takes one step, then \<^verbatim>\<open>set(1, 9)\<close>, then the iterator takes
  its next step. The result is what the two steps return.\<close>

definition set_during_iteration :: "(int step \<times> int step) res" where
  "set_during_iteration =
     bindR (construct (Some [Some 1, Some 2, Some 3]) True False empty_world)
       (\<lambda>(l0, w0). bindR (iter_next (iterator l0) l0 w0)
          (\<lambda>(s1, it1). bindR (setL 1 (Some 9) l0 w0)
             (\<lambda>(_, l1, w1). bindR (iter_next it1 l1 w1)
                (\<lambda>(s2, it2). ok (s1, s2)))))"

section \<open>Basic facts\<close>

lemma bindR_ok [simp]: "bindR (ok x) f = f x"
  by (simp add: bindR_def ok_def)

lemma bindR_throw [simp]: "bindR (throw e) f = throw e"
  by (simp add: bindR_def throw_def)

lemma bindR_None [simp]: "bindR None f = None"
  by (simp add: bindR_def)

lemma ok_inject [simp]: "(ok x = ok y) = (x = y)"
  by (simp add: ok_def)

lemma ok_not_throw [simp]: "ok x \<noteq> throw e" "throw e \<noteq> ok x" "ok x \<noteq> None" "throw e \<noteq> None"
  by (simp_all add: ok_def throw_def)

lemma throw_inject [simp]: "(throw e = throw e') = (e = e')"
  by (simp add: throw_def)

lemma cells_notify [simp]: "cells (notify ev l w) = cells w"
  by (simp add: notify_def split: option.splits)

lemma fresh_notify [simp]: "fresh (notify ev l w) = fresh w"
  by (simp add: notify_def split: option.splits)

lemma ex_list_container: "container ex_list ex_world [2, 3, 4]"
  by (simp add: container_def well_linked_def adj_def ex_list_def ex_world_def ex_cells_def)

lemma ex_donor_container: "container ex_donor ex_world [7, 8]"
  by (simp add: container_def well_linked_def adj_def ex_donor_def ex_world_def ex_cells_def)

lemma ex_empty_container: "container ex_empty ex_empty_world []"
  by (simp add: container_def well_linked_def adj_def ex_empty_def ex_empty_world_def)

lemma ex_constructed:
  "bindR (construct (Some [Some 10, Some 20, Some 30]) False False empty_world)
     (\<lambda>(l, w). bindR (construct (Some [Some 40, Some 50]) False False w)
        (\<lambda>(l', w'). ok (l, l', w')))
   = ok (ex_list, ex_donor, ex_world)"
  apply (simp add: construct_def push_def updateSkipLinks_def bindR_def ok_def throw_def
      addNodeAfter_def empty_world_def newNode_def Let_def ex_list_def ex_donor_def
      ex_world_def ex_cells_def)
  apply (rule ext)
  apply simp
  done

lemma ex_empty_constructed: "construct None True False empty_world = ok (ex_empty, ex_empty_world)"
  by (simp add: construct_def updateSkipLinks_def bindR_def ok_def
      empty_world_def newNode_def Let_def ex_empty_def ex_empty_world_def)

section \<open>Chains of nodes\<close>

lemma adj_fwd: "successively (adj c) xs \<Longrightarrow> successively (\<lambda>x y. nxt (c x) = Some y) xs"
  by (erule successively_mono) (simp add: adj_def)

lemma adj_bwd: "successively (adj c) xs \<Longrightarrow> successively (\<lambda>x y. prv (c y) = Some x) xs"
  by (erule successively_mono) (simp add: adj_def)

lemma adj_frame:
  "successively (adj c) xs \<Longrightarrow> \<forall>x\<in>set (butlast xs). nxt (c' x) = nxt (c x) \<Longrightarrow>
   \<forall>x\<in>set (tl xs). prv (c' x) = prv (c x) \<Longrightarrow> successively (adj c') xs"
  by (induction "adj c" xs rule: successively.induct) (auto simp: adj_def)

lemma toArray_loop_chain:
  "successively (\<lambda>x y. nxt (c x) = Some y) (p # as @ [t]) \<Longrightarrow> t \<notin> set as \<Longrightarrow>
   toArray_loop t c (nxt (c p)) acc = Some (Inr (acc @ map (\<lambda>a. val (c a)) as))"
proof (induction as arbitrary: p acc)
  case Nil
  then show ?case by (subst toArray_loop.simps) simp
next
  case (Cons a as)
  from Cons.prems have n: "nxt (c p) = Some a" and at: "a \<noteq> t"
    and rest: "successively (\<lambda>x y. nxt (c x) = Some y) (a # as @ [t])" and t: "t \<notin> set as"
    by auto
  show ?case
    by (subst toArray_loop.simps) (simp add: n at Cons.IH [OF rest t])
qed

lemma walkNext_chain:
  "successively (\<lambda>x y. nxt (c x) = Some y) ns \<Longrightarrow> i + k < length ns \<Longrightarrow>
   walkNext k c (Some (ns ! i)) = ok (Some (ns ! (i + k)))"
proof (induction k arbitrary: i)
  case 0
  then show ?case by simp
next
  case (Suc k)
  from Suc.prems have "nxt (c (ns ! i)) = Some (ns ! Suc i)"
    by (intro successively_nth [where P = "\<lambda>x y. nxt (c x) = Some y"]) auto
  moreover have "walkNext k c (Some (ns ! Suc i)) = ok (Some (ns ! (Suc i + k)))"
    using Suc.prems by (intro Suc.IH) auto
  ultimately show ?case by simp
qed

lemma walkPrev_chain:
  "successively (\<lambda>x y. prv (c y) = Some x) ns \<Longrightarrow> k \<le> i \<Longrightarrow> i < length ns \<Longrightarrow>
   walkPrev k c (Some (ns ! i)) = ok (Some (ns ! (i - k)))"
proof (induction k arbitrary: i)
  case 0
  then show ?case by simp
next
  case (Suc k)
  then obtain j where j: "i = Suc j" by (cases i) auto
  from Suc.prems j have "prv (c (ns ! Suc j)) = Some (ns ! j)"
    by (intro successively_nth [where P = "\<lambda>x y. prv (c y) = Some x"]) auto
  moreover have "walkPrev k c (Some (ns ! j)) = ok (Some (ns ! (j - k)))"
    using Suc.prems j by (intro Suc.IH) auto
  ultimately show ?case using j by simp
qed

lemma well_linked_head_next:
  "well_linked l w as \<Longrightarrow> nxt (cells w (head l)) = Some ((as @ [tail l]) ! 0)"
  by (cases as) (auto simp: well_linked_def adj_def)

lemma well_linked_tail_prev:
  "well_linked l w as \<Longrightarrow> prv (cells w (tail l)) = Some (last (head l # as))"
proof -
  assume "well_linked l w as"
  then have "successively (adj (cells w)) ((head l # as) @ [tail l])"
    by (simp add: well_linked_def Let_def)
  then have "adj (cells w) (last (head l # as)) (tail l)"
    unfolding successively_append_iff by simp
  then show ?thesis by (simp add: adj_def)
qed

lemma nodeAt_linear:
  assumes c: "container l w as"
    and lin: "linear_seek l r"
    and r: "r = (if index < 0 then lsize l + index else index)"
    and range: "0 \<le> r" "r < lsize l"
  shows "nodeAt index l w = ok (Some (as ! nat r), r)"
proof -
  let ?ns = "head l # as @ [tail l]"
  from c have wl: "well_linked l w as" and sz: "lsize l = int (length as)"
    by (simp_all add: container_def)
  from wl have succ: "successively (adj (cells w)) ?ns"
    by (simp add: well_linked_def Let_def)
  from range sz have ne: "as \<noteq> []" by auto
  from range sz have lt: "nat r < length as" by linarith
  have nth: "as ! nat r = ?ns ! (Suc (nat r))"
    using lt by (simp add: nth_append)
  have unf: "(if index < 0 then lsize l + index else index) = r"
    using r by simp
  show ?thesis
  proof (cases "2 * r \<le> lsize l")
    case True
    have hn: "nxt (cells w (head l)) = Some (?ns ! 1)"
      using well_linked_head_next [OF wl] ne by (cases as) auto
    have "walkNext (nat r) (cells w) (Some (?ns ! 1)) = ok (Some (?ns ! (1 + nat r)))"
      using range sz by (intro walkNext_chain [OF adj_fwd [OF succ]]) auto
    then have wn: "walkNext (nat r) (cells w) (nxt (cells w (head l))) = ok (Some (as ! nat r))"
      unfolding hn nth by simp
    from lin True have lin': "(useSkipLinks l \<and> 8 \<le> lsize l) = False"
      by (auto simp: linear_seek_def)
    show ?thesis
      using True range by (simp add: nodeAt_def Let_def unf wn lin')
  next
    case False
    have lastn: "last (head l # as) = ?ns ! length as"
      using ne by (simp add: last_conv_nth nth_append)
    have tp: "prv (cells w (tail l)) = Some (?ns ! length as)"
      using well_linked_tail_prev [OF wl] lastn by simp
    have "walkPrev (nat (lsize l - 1 - r)) (cells w) (Some (?ns ! length as))
            = ok (Some (?ns ! (length as - nat (lsize l - 1 - r))))"
      using range sz by (intro walkPrev_chain [OF adj_bwd [OF succ]]) auto
    moreover have "length as - nat (lsize l - 1 - r) = Suc (nat r)"
      using range sz by auto
    ultimately have wp: "walkPrev (nat (lsize l - 1 - r)) (cells w) (prv (cells w (tail l)))
            = ok (Some (as ! nat r))"
      unfolding tp nth by simp
    show ?thesis
      using False range by (simp add: nodeAt_def Let_def unf wp)
  qed
qed


lemma butlast_not_last: "distinct xs \<Longrightarrow> x \<in> set (butlast xs) \<Longrightarrow> x \<noteq> last xs"
  by (cases xs rule: rev_cases) auto

lemma tl_not_hd: "distinct xs \<Longrightarrow> x \<in> set (tl xs) \<Longrightarrow> x \<noteq> hd xs"
  by (cases xs) auto

lemma adj_frame_distinct:
  assumes "successively (adj c) xs" and "distinct xs"
    and "\<And>x. x \<in> set xs \<Longrightarrow> x \<noteq> last xs \<Longrightarrow> nxt (c' x) = nxt (c x)"
    and "\<And>x. x \<in> set xs \<Longrightarrow> x \<noteq> hd xs \<Longrightarrow> prv (c' x) = prv (c x)"
  shows "successively (adj c') xs"
proof (rule adj_frame [OF assms(1)])
  show "\<forall>x\<in>set (butlast xs). nxt (c' x) = nxt (c x)"
    using assms(2,3) butlast_not_last in_set_butlastD by metis
  show "\<forall>x\<in>set (tl xs). prv (c' x) = prv (c x)"
    using assms(2,4) tl_not_hd list.set_sel(2) by (metis tl_Nil)
qed

text \<open>Linking a new node between two neighbours, and unlinking a node.\<close>

lemma splice_in:
  assumes succ: "successively (adj c) (xs @ ys)" and ne: "xs \<noteq> []" "ys \<noteq> []"
    and dist: "distinct (xs @ ys)" and new: "a \<notin> set (xs @ ys)"
    and na: "nxt (c' a) = Some (hd ys)" and pa: "prv (c' a) = Some (last xs)"
    and np: "nxt (c' (last xs)) = Some a" and pn: "prv (c' (hd ys)) = Some a"
    and nframe: "\<And>x. x \<noteq> a \<Longrightarrow> x \<noteq> last xs \<Longrightarrow> nxt (c' x) = nxt (c x)"
    and pframe: "\<And>x. x \<noteq> a \<Longrightarrow> x \<noteq> hd ys \<Longrightarrow> prv (c' x) = prv (c x)"
  shows "successively (adj c') (xs @ a # ys)"
proof -
  from succ have sx: "successively (adj c) xs" and sy: "successively (adj c) ys"
    by (simp_all add: successively_append_iff)
  from dist have dx: "distinct xs" and dy: "distinct ys" and disj: "set xs \<inter> set ys = {}"
    by auto
  have hy: "hd ys \<in> set ys" and lx: "last xs \<in> set xs" using ne by auto
  have sx': "successively (adj c') xs"
  proof (rule adj_frame_distinct [OF sx dx])
    fix x assume "x \<in> set xs" "x \<noteq> last xs"
    then show "nxt (c' x) = nxt (c x)" using new by (intro nframe) auto
  next
    fix x assume "x \<in> set xs" "x \<noteq> hd xs"
    then show "prv (c' x) = prv (c x)" using new disj hy by (intro pframe) auto
  qed
  have sy': "successively (adj c') ys"
  proof (rule adj_frame_distinct [OF sy dy])
    fix x assume "x \<in> set ys" "x \<noteq> last ys"
    then show "nxt (c' x) = nxt (c x)" using new disj lx by (intro nframe) auto
  next
    fix x assume "x \<in> set ys" "x \<noteq> hd ys"
    then show "prv (c' x) = prv (c x)" using new by (intro pframe) auto
  qed
  have "successively (adj c') (a # ys)"
    using sy' ne na pn by (simp add: successively_Cons adj_def)
  then show ?thesis
    using sx' ne np pa by (simp add: successively_append_iff adj_def)
qed

lemma splice_out:
  assumes succ: "successively (adj c) (xs @ a # ys)" and ne: "xs \<noteq> []" "ys \<noteq> []"
    and dist: "distinct (xs @ a # ys)"
    and np: "nxt (c' (last xs)) = Some (hd ys)" and pn: "prv (c' (hd ys)) = Some (last xs)"
    and nframe: "\<And>x. x \<noteq> last xs \<Longrightarrow> nxt (c' x) = nxt (c x)"
    and pframe: "\<And>x. x \<noteq> hd ys \<Longrightarrow> prv (c' x) = prv (c x)"
  shows "successively (adj c') (xs @ ys)"
proof -
  from succ ne have sx: "successively (adj c) xs" and sy: "successively (adj c) ys"
    by (simp_all add: successively_append_iff successively_Cons)
  from dist have dx: "distinct xs" and dy: "distinct ys" and disj: "set xs \<inter> set ys = {}"
    by auto
  have hy: "hd ys \<in> set ys" and lx: "last xs \<in> set xs" using ne by auto
  have sx': "successively (adj c') xs"
  proof (rule adj_frame_distinct [OF sx dx])
    fix x assume "x \<in> set xs" "x \<noteq> last xs"
    then show "nxt (c' x) = nxt (c x)" by (intro nframe) auto
  next
    fix x assume "x \<in> set xs" "x \<noteq> hd xs"
    then show "prv (c' x) = prv (c x)" using disj hy by (intro pframe) auto
  qed
  have sy': "successively (adj c') ys"
  proof (rule adj_frame_distinct [OF sy dy])
    fix x assume "x \<in> set ys" "x \<noteq> last ys"
    then show "nxt (c' x) = nxt (c x)" using disj lx by (intro nframe) auto
  next
    fix x assume "x \<in> set ys" "x \<noteq> hd ys"
    then show "prv (c' x) = prv (c x)" by (intro pframe) auto
  qed
  show ?thesis
    using sx' sy' ne np pn by (simp add: successively_append_iff adj_def)
qed

section \<open>Linking and unlinking a node\<close>

lemma last_Cons_take: "k \<le> length as \<Longrightarrow> last (x # take k as) = (x # as) ! k"
  by (cases k) (auto simp: last_conv_nth min_def)

lemma hd_drop_snoc: "k \<le> length as \<Longrightarrow> hd (drop k as @ [t]) = (as @ [t]) ! k"
  by (cases "k = length as") (auto simp: hd_append hd_drop_conv_nth nth_append)

lemma addNodeAfter_cells:
  assumes "nxt (cells w p) = Some n" and "fresh w \<noteq> p" and "fresh w \<noteq> n" and "p \<noteq> n"
  shows "\<exists>w'. addNodeAfter (Some p) v l w = ok (fresh w, l\<lparr>lsize := lsize l + 1\<rparr>, w') \<and>
           fresh w' = Suc (fresh w) \<and>
           (\<forall>x. nxt (cells w' x) = (if x = fresh w then Some n
                                      else if x = p then Some (fresh w) else nxt (cells w x))) \<and>
           (\<forall>x. prv (cells w' x) = (if x = fresh w then Some p
                                      else if x = n then Some (fresh w) else prv (cells w x))) \<and>
           (\<forall>x. val (cells w' x) = (if x = fresh w then v else val (cells w x)))"
  using assms by (simp add: addNodeAfter_def Let_def newNode_def)

lemma removeNode_cells:
  assumes "prv (cells w a) = Some p" and "nxt (cells w a) = Some n" and "p \<noteq> n"
  shows "\<exists>w'. removeNode (Some a) l w = ok (val (cells w a), l\<lparr>lsize := lsize l - 1\<rparr>, w') \<and>
           fresh w' = fresh w \<and>
           (\<forall>x. nxt (cells w' x) = (if x = p then Some n else nxt (cells w x))) \<and>
           (\<forall>x. prv (cells w' x) = (if x = n then Some p else prv (cells w x))) \<and>
           (\<forall>x. val (cells w' x) = val (cells w x))"
  using assms by (simp add: removeNode_def Let_def)

lemma well_linked_fields [simp]:
  "well_linked (l\<lparr>lsize := s\<rparr>) w as = well_linked l w as"
  "well_linked (l\<lparr>modCount := m\<rparr>) w as = well_linked l w as"
  "well_linked (l\<lparr>transaction := t\<rparr>) w as = well_linked l w as"
  "well_linked l (notify ev l' w) as = well_linked l w as"
  by (simp_all add: well_linked_def)

lemma addNodeAfter_linked:
  assumes wl: "well_linked l w as" and k: "k \<le> length as" and p: "p = (head l # as) ! k"
  shows "\<exists>w'. addNodeAfter (Some p) v l w = ok (fresh w, l\<lparr>lsize := lsize l + 1\<rparr>, w') \<and>
           well_linked l w' (take k as @ fresh w # drop k as) \<and>
           contents w' (take k as @ fresh w # drop k as)
             = take k (contents w as) @ v # drop k (contents w as)"
proof -
  let ?c = "cells w" and ?a = "fresh w"
  define xs where "xs = head l # take k as"
  define ys where "ys = drop k as @ [tail l]"
  have ns: "head l # as @ [tail l] = xs @ ys" by (simp add: xs_def ys_def)
  have ne: "xs \<noteq> []" "ys \<noteq> []" by (simp_all add: xs_def ys_def)
  have hx: "head l \<in> set xs" and ty: "tail l \<in> set ys" by (simp_all add: xs_def ys_def)
  from wl have succ: "successively (adj ?c) (xs @ ys)"
    and dist: "distinct (xs @ ys)"
    and hp: "prv (?c (head l)) = None" and tn: "nxt (?c (tail l)) = None"
    and below: "list_all (\<lambda>a. a < ?a) (xs @ ys)"
    unfolding well_linked_def Let_def ns by blast+
  have lastx: "last xs = p" using k p unfolding xs_def by (simp only: last_Cons_take)
  define n where "n = hd ys"
  from succ ne have "adj ?c (last xs) (hd ys)"
    unfolding successively_append_iff by simp
  then have pn: "nxt (?c p) = Some n"
    unfolding lastx n_def by (simp add: adj_def)
  have pin: "p \<in> set xs" using lastx last_in_set [OF ne(1)] by simp
  have nin: "n \<in> set ys" unfolding n_def by (rule hd_in_set [OF ne(2)])
  from below have new: "?a \<notin> set (xs @ ys)"
    by (auto simp: list_all_iff)
  from dist have disj: "set xs \<inter> set ys = {}" by (simp only: distinct_append)
  have ap: "?a \<noteq> p" and an: "?a \<noteq> n" and pnn: "p \<noteq> n"
    using new pin nin disj by auto
  from addNodeAfter_cells [OF pn ap an pnn, of v l]
  obtain w' where res: "addNodeAfter (Some p) v l w = ok (?a, l\<lparr>lsize := lsize l + 1\<rparr>, w')"
    and fr: "fresh w' = Suc ?a"
    and nx: "\<And>x. nxt (cells w' x) = (if x = ?a then Some n
                                      else if x = p then Some ?a else nxt (?c x))"
    and pr: "\<And>x. prv (cells w' x) = (if x = ?a then Some p
                                      else if x = n then Some ?a else prv (?c x))"
    and vl: "\<And>x. val (cells w' x) = (if x = ?a then v else val (?c x))"
    by blast
  have "successively (adj (cells w')) (xs @ ?a # ys)"
  proof (rule splice_in [OF succ ne dist new])
    show "nxt (cells w' ?a) = Some (hd ys)" by (simp add: nx n_def)
    show "prv (cells w' ?a) = Some (last xs)" by (simp add: pr lastx)
    show "nxt (cells w' (last xs)) = Some ?a" using ap by (simp add: nx lastx)
    show "prv (cells w' (hd ys)) = Some ?a" using an by (simp add: pr n_def [symmetric])
    show "\<And>x. x \<noteq> ?a \<Longrightarrow> x \<noteq> last xs \<Longrightarrow> nxt (cells w' x) = nxt (?c x)"
      by (simp add: nx lastx)
    show "\<And>x. x \<noteq> ?a \<Longrightarrow> x \<noteq> hd ys \<Longrightarrow> prv (cells w' x) = prv (?c x)"
      by (simp add: pr n_def [symmetric])
  qed
  moreover have "distinct (xs @ ?a # ys)" using dist new by auto
  moreover have "prv (cells w' (head l)) = None"
  proof -
    have "head l \<noteq> ?a" "head l \<noteq> n" using hx new nin disj by auto
    then show ?thesis by (simp add: pr hp)
  qed
  moreover have "nxt (cells w' (tail l)) = None"
  proof -
    have "tail l \<noteq> ?a" "tail l \<noteq> p" using ty new pin disj by auto
    then show ?thesis by (simp add: nx tn)
  qed
  moreover have "list_all (\<lambda>a. a < fresh w') (xs @ ?a # ys)"
    using below by (auto simp: fr list_all_iff less_Suc_eq)
  moreover have "head l # (take k as @ ?a # drop k as) @ [tail l] = xs @ ?a # ys"
    by (simp add: xs_def ys_def)
  ultimately have wl': "well_linked l w' (take k as @ ?a # drop k as)"
    unfolding well_linked_def Let_def by simp
  have "set as \<subseteq> set (xs @ ys)" unfolding ns [symmetric] by auto
  with new have "?a \<notin> set as" by blast
  then have vs: "\<And>x. x \<in> set as \<Longrightarrow> val (cells w' x) = val (?c x)"
    by (auto simp: vl)
  have t1: "map (\<lambda>a. val (cells w' a)) (take k as) = map (\<lambda>a. val (?c a)) (take k as)"
    by (intro map_cong refl vs) (auto dest: in_set_takeD)
  have t2: "map (\<lambda>a. val (cells w' a)) (drop k as) = map (\<lambda>a. val (?c a)) (drop k as)"
    by (intro map_cong refl vs) (auto dest: in_set_dropD)
  have va: "val (cells w' ?a) = v" by (simp add: vl)
  have "contents w' (take k as @ ?a # drop k as)
          = take k (contents w as) @ v # drop k (contents w as)"
    unfolding contents_def
    by (simp only: map_append list.map t1 t2 va take_map drop_map)
  with res wl' show ?thesis by blast
qed

lemma removeNode_linked:
  assumes wl: "well_linked l w as" and k: "k < length as"
  shows "\<exists>w'. removeNode (Some (as ! k)) l w
               = ok (val (cells w (as ! k)), l\<lparr>lsize := lsize l - 1\<rparr>, w') \<and>
           well_linked l w' (take k as @ drop (Suc k) as) \<and>
           contents w' (take k as @ drop (Suc k) as)
             = take k (contents w as) @ drop (Suc k) (contents w as)"
proof -
  let ?c = "cells w" and ?a = "as ! k"
  define xs where "xs = head l # take k as"
  define ys where "ys = drop (Suc k) as @ [tail l]"
  have ns: "head l # as @ [tail l] = xs @ ?a # ys"
    using k by (simp add: xs_def ys_def id_take_nth_drop [symmetric])
  have ne: "xs \<noteq> []" "ys \<noteq> []" by (simp_all add: xs_def ys_def)
  have hx: "head l \<in> set xs" and ty: "tail l \<in> set ys" by (simp_all add: xs_def ys_def)
  from wl have succ: "successively (adj ?c) (xs @ ?a # ys)"
    and dist: "distinct (xs @ ?a # ys)"
    and hp: "prv (?c (head l)) = None" and tn: "nxt (?c (tail l)) = None"
    and below: "list_all (\<lambda>a. a < fresh w) (xs @ ?a # ys)"
    unfolding well_linked_def Let_def ns by blast+
  define p where "p = last xs"
  define n where "n = hd ys"
  from succ ne have "adj ?c p ?a" "adj ?c ?a n"
    unfolding successively_append_iff successively_Cons p_def n_def by simp_all
  then have pa: "prv (?c ?a) = Some p" and na: "nxt (?c ?a) = Some n"
    by (simp_all add: adj_def)
  have pin: "p \<in> set xs" unfolding p_def by (rule last_in_set [OF ne(1)])
  have nin: "n \<in> set ys" unfolding n_def by (rule hd_in_set [OF ne(2)])
  from dist have disj: "set xs \<inter> set ys = {}" by auto
  have pnn: "p \<noteq> n" using pin nin disj by auto
  from removeNode_cells [OF pa na pnn, of l]
  obtain w' where res: "removeNode (Some ?a) l w = ok (val (?c ?a), l\<lparr>lsize := lsize l - 1\<rparr>, w')"
    and fr: "fresh w' = fresh w"
    and nx: "\<And>x. nxt (cells w' x) = (if x = p then Some n else nxt (?c x))"
    and pr: "\<And>x. prv (cells w' x) = (if x = n then Some p else prv (?c x))"
    and vl: "\<And>x. val (cells w' x) = val (?c x)"
    by blast
  have "successively (adj (cells w')) (xs @ ys)"
  proof (rule splice_out [OF succ ne dist])
    show "nxt (cells w' (last xs)) = Some (hd ys)"
      by (simp add: nx p_def [symmetric] n_def)
    show "prv (cells w' (hd ys)) = Some (last xs)"
      by (simp add: pr p_def n_def [symmetric])
    show "\<And>x. x \<noteq> last xs \<Longrightarrow> nxt (cells w' x) = nxt (?c x)"
      by (simp add: nx p_def)
    show "\<And>x. x \<noteq> hd ys \<Longrightarrow> prv (cells w' x) = prv (?c x)"
      by (simp add: pr n_def)
  qed
  moreover have "distinct (xs @ ys)" using dist by auto
  moreover have "prv (cells w' (head l)) = None"
  proof -
    have "head l \<noteq> n" using hx nin disj by auto
    then show ?thesis by (simp add: pr hp)
  qed
  moreover have "nxt (cells w' (tail l)) = None"
  proof -
    have "tail l \<noteq> p" using ty pin disj by auto
    then show ?thesis by (simp add: nx tn)
  qed
  moreover have "list_all (\<lambda>a. a < fresh w') (xs @ ys)"
    using below by (auto simp: fr list_all_iff)
  moreover have "head l # (take k as @ drop (Suc k) as) @ [tail l] = xs @ ys"
    by (simp add: xs_def ys_def)
  ultimately have wl': "well_linked l w' (take k as @ drop (Suc k) as)"
    unfolding well_linked_def Let_def by simp
  have "contents w' (take k as @ drop (Suc k) as)
          = take k (contents w as) @ drop (Suc k) (contents w as)"
    unfolding contents_def
    by (simp add: take_map [symmetric] drop_map [symmetric] vl)
  with res wl' show ?thesis by blast
qed

section \<open>Rebuilding the skip-links keeps the chain\<close>

lemma skip_only_refl [simp]: "skip_only c c"
  by (simp add: skip_only_def)

lemma skip_only_trans: "skip_only c c' \<Longrightarrow> skip_only c' c'' \<Longrightarrow> skip_only c c''"
  by (simp add: skip_only_def)

lemma skip_only_upd [simp]: "skip_only c (c(a := (c a)\<lparr>skip := r\<rparr>))"
  by (simp add: skip_only_def)

lemma skip_only_adj: "skip_only c c' \<Longrightarrow> adj c' = adj c"
  by (simp add: skip_only_def adj_def fun_eq_iff)

lemma skip_only_linked:
  "skip_only (cells w) (cells w') \<Longrightarrow> fresh w' = fresh w \<Longrightarrow>
   well_linked l w' as = well_linked l w as"
  by (simp add: well_linked_def skip_only_adj) (simp add: skip_only_def)

lemma skip_only_contents: "skip_only (cells w) (cells w') \<Longrightarrow> contents w' as = contents w as"
  by (simp add: contents_def skip_only_def)

lemma skipTarget_chain:
  "successively (\<lambda>x y. nxt (c x) = Some y) (xs @ [t]) \<Longrightarrow>
   \<exists>r. skipTarget k t c (Some (hd (xs @ [t]))) = ok r"
proof (induction k arbitrary: xs)
  case 0
  then show ?case by simp
next
  case (Suc k)
  show ?case
  proof (cases xs)
    case Nil
    then show ?thesis by simp
  next
    case (Cons x xs')
    with Suc.prems have n: "nxt (c x) = Some (hd (xs' @ [t]))"
      and rest: "successively (\<lambda>x y. nxt (c x) = Some y) (xs' @ [t])"
      by (simp_all add: successively_Cons)
    from Suc.IH [OF rest] obtain r where "skipTarget k t c (Some (hd (xs' @ [t]))) = ok r" ..
    with Cons n show ?thesis by simp
  qed
qed

lemma updateSkipLinks_loop_chain:
  "successively (\<lambda>x y. nxt (c x) = Some y) (p # as @ [t]) \<Longrightarrow> t \<notin> set as \<Longrightarrow>
   \<exists>c'. updateSkipLinks_loop sd t c (nxt (c p)) count = Some (Inr c') \<and> skip_only c c'"
proof (induction as arbitrary: p c count)
  case Nil
  then show ?case by (subst updateSkipLinks_loop.simps) simp
next
  case (Cons a as)
  from Cons.prems have n: "nxt (c p) = Some a" and at: "a \<noteq> t"
    and rest: "successively (\<lambda>x y. nxt (c x) = Some y) (a # as @ [t])" and t: "t \<notin> set as"
    by auto
  show ?case
  proof (cases "count mod sd = 0")
    case True
    from skipTarget_chain [of c "a # as" t sd] rest
    obtain r where r: "skipTarget sd t c (Some a) = Some (Inr r)"
      by (auto simp: ok_def)
    let ?c1 = "c(a := (c a)\<lparr>skip := r\<rparr>)"
    have "successively (\<lambda>x y. nxt (?c1 x) = Some y) (a # as @ [t])"
      using rest by (rule successively_mono) auto
    from Cons.IH [OF this t, of "count + 1"]
    obtain c' where c': "updateSkipLinks_loop sd t ?c1 (nxt (?c1 a)) (count + 1) = Some (Inr c')"
      and so: "skip_only ?c1 c'" by blast
    have "skip_only c c'" by (rule skip_only_trans [OF skip_only_upd so])
    moreover have "updateSkipLinks_loop sd t c (nxt (c p)) count = Some (Inr c')"
      using c' by (subst updateSkipLinks_loop.simps) (simp add: n at True r)
    ultimately show ?thesis by blast
  next
    case False
    from Cons.IH [OF rest t, of "count + 1"]
    obtain c' where c': "updateSkipLinks_loop sd t c (nxt (c a)) (count + 1) = Some (Inr c')"
      and so: "skip_only c c'" by blast
    have "updateSkipLinks_loop sd t c (nxt (c p)) count = Some (Inr c')"
      using c' by (subst updateSkipLinks_loop.simps) (simp add: n at False)
    with so show ?thesis by blast
  qed
qed

lemma well_linked_fwd:
  "well_linked l w as \<Longrightarrow>
   successively (\<lambda>x y. nxt (cells w x) = Some y) (head l # as @ [tail l]) \<and> tail l \<notin> set as"
  by (auto simp: well_linked_def Let_def intro: adj_fwd)

lemma updateSkipLinks_linked:
  assumes "well_linked l w as"
  shows "\<exists>c'. updateSkipLinks l w = ok (w\<lparr>cells := c'\<rparr>) \<and> skip_only (cells w) c'"
proof (cases "\<not> useSkipLinks l \<or> lsize l < 8")
  case True
  then have "updateSkipLinks l w = ok (w\<lparr>cells := cells w\<rparr>)"
    by (simp add: updateSkipLinks_def)
  then show ?thesis using skip_only_refl by blast
next
  case False
  from well_linked_fwd [OF assms]
  have "\<exists>c'. updateSkipLinks_loop (nat (max 2 (floor_sqrt (lsize l)))) (tail l) (cells w)
                (nxt (cells w (head l))) 0 = Some (Inr c') \<and> skip_only (cells w) c'"
    by (intro updateSkipLinks_loop_chain) auto
  then obtain c' where
    "updateSkipLinks_loop (nat (max 2 (floor_sqrt (lsize l)))) (tail l) (cells w)
                (nxt (cells w (head l))) 0 = ok c'" and "skip_only (cells w) c'"
    by (auto simp: ok_def)
  with False show ?thesis
    by (auto simp: updateSkipLinks_def Let_def)
qed

lemma updateSkipLinks_container:
  assumes "well_linked l w as"
  shows "\<exists>w'. updateSkipLinks l w = ok w' \<and> well_linked l w' as \<and>
           contents w' as = contents w as"
proof -
  from updateSkipLinks_linked [OF assms] obtain c'
    where r: "updateSkipLinks l w = ok (w\<lparr>cells := c'\<rparr>)" and so: "skip_only (cells w) c'"
    by blast
  have "well_linked l (w\<lparr>cells := c'\<rparr>) as"
    using assms so by (subst skip_only_linked [of w]) simp_all
  moreover have "contents (w\<lparr>cells := c'\<rparr>) as = contents w as"
    using so by (intro skip_only_contents) simp
  ultimately show ?thesis using r by blast
qed

lemma amortizedUpdate_container:
  assumes "well_linked l w as"
  shows "\<exists>w'. amortizedUpdate l w = ok (l, w') \<and> well_linked l w' as \<and>
           contents w' as = contents w as"
proof (cases "useSkipLinks l \<and> rebuildDue (lsize l) (lsize l)")
  case True
  from updateSkipLinks_container [OF assms] obtain w'
    where "updateSkipLinks l w = ok w'" "well_linked l w' as" "contents w' as = contents w as"
    by blast
  with True show ?thesis by (simp add: amortizedUpdate_def)
next
  case False
  with assms show ?thesis by (auto simp: amortizedUpdate_def)
qed

section \<open>Reading, iterating, writing a value, clearing\<close>

lemma links_linked:
  assumes "\<And>x. nxt (cells w' x) = nxt (cells w x)" and "\<And>x. prv (cells w' x) = prv (cells w x)"
    and "fresh w' = fresh w"
  shows "well_linked l w' as = well_linked l w as"
proof -
  have "adj (cells w') = adj (cells w)"
    by (simp add: adj_def fun_eq_iff assms)
  then show ?thesis by (simp add: well_linked_def assms)
qed

lemma container_fields [simp]:
  "container (l\<lparr>modCount := m\<rparr>) w as = container l w as"
  "container (l\<lparr>transaction := t\<rparr>) w as = container l w as"
  "container l (notify ev l' w) as = container l w as"
  by (simp_all add: container_def)

lemma contents_notify [simp]: "contents (notify ev l w) as = contents w as"
  by (simp add: contents_def)

lemma toArray_container:
  assumes "container l w as"
  shows "toArray l w = ok (contents w as)"
proof -
  from assms have wl: "well_linked l w as" and sz: "lsize l = int (length as)"
    by (simp_all add: container_def)
  from well_linked_fwd [OF wl]
  have "toArray_loop (tail l) (cells w) (nxt (cells w (head l))) []
          = Some (Inr ([] @ map (\<lambda>a. val (cells w a)) as))"
    by (intro toArray_loop_chain) auto
  then have "toArray_loop (tail l) (cells w) (nxt (cells w (head l))) [] = ok (contents w as)"
    by (simp add: ok_def contents_def)
  then show ?thesis using sz by (simp add: toArray_def contents_def)
qed

lemma iterate_chain:
  assumes "successively (\<lambda>x y. nxt (cells w x) = Some y) (p # as @ [tail l])"
    and "tail l \<notin> set as" and "expectedModCount it = modCount l" and "it_node it = Some p"
  shows "iterate it l w acc = Some (Inr (acc @ map (\<lambda>a. val (cells w a)) as))"
  using assms
proof (induction as arbitrary: p acc it)
  case Nil
  then have "iter_next it l w = Some (Inr (Done, it\<lparr>it_node := Some (tail l)\<rparr>))"
    by (simp add: iter_next_def ok_def)
  then show ?case by (subst iterate.simps) simp
next
  case (Cons a as)
  from Cons.prems have n: "nxt (cells w p) = Some a" and at: "a \<noteq> tail l"
    and rest: "successively (\<lambda>x y. nxt (cells w x) = Some y) (a # as @ [tail l])"
    and t: "tail l \<notin> set as"
    by auto
  let ?it' = "it\<lparr>it_node := Some a\<rparr>"
  have step: "iter_next it l w = Some (Inr (Yield (val (cells w a)), ?it'))"
    using Cons.prems n at by (simp add: iter_next_def ok_def)
  have "iterate ?it' l w (acc @ [val (cells w a)])
          = Some (Inr ((acc @ [val (cells w a)]) @ map (\<lambda>a. val (cells w a)) as))"
    using Cons.prems by (intro Cons.IH [OF rest t]) simp_all
  then show ?case by (subst iterate.simps) (simp add: step)
qed

lemma iterate_container:
  assumes "container l w as"
  shows "iterate (iterator l) l w [] = ok (contents w as)"
proof -
  from assms have wl: "well_linked l w as" by (simp add: container_def)
  from well_linked_fwd [OF wl]
  have "iterate (iterator l) l w [] = Some (Inr ([] @ map (\<lambda>a. val (cells w a)) as))"
    by (intro iterate_chain) (auto simp: iterator_def)
  then show ?thesis by (simp add: ok_def contents_def)
qed

lemma well_linked_distinct: "well_linked l w as \<Longrightarrow> distinct as"
  by (auto simp: well_linked_def Let_def)

lemma setL_container:
  assumes c: "container l w as"
    and lin: "linear_seek l r"
    and r: "r = (if index < 0 then lsize l + index else index)"
    and range: "0 \<le> r" "r < lsize l"
  shows "\<exists>w'. setL index v l w = ok (True, l, w') \<and> container l w' as \<and>
           contents w' as = (contents w as)[nat r := v]"
proof -
  let ?a = "as ! nat r"
  let ?w1 = "w\<lparr>cells := (cells w)(?a := (cells w ?a)\<lparr>val := v\<rparr>)\<rparr>"
  let ?w' = "if observable l then notify (Update index (val (cells w ?a)) v) l ?w1 else ?w1"
  from c have wl: "well_linked l w as" and sz: "lsize l = int (length as)"
    by (simp_all add: container_def)
  have res: "setL index v l w = ok (True, l, ?w')"
    by (simp add: setL_def nodeAt_linear [OF c lin r range] Let_def)
  have "well_linked l ?w1 as"
    using wl by (subst links_linked [of _ w]) simp_all
  then have c': "container l ?w' as"
    using sz by (simp add: container_def)
  from range sz have lt: "nat r < length as" by linarith
  have "contents ?w1 as = (contents w as)[nat r := v]"
    using lt well_linked_distinct [OF wl]
    by (auto simp: contents_def list_eq_iff_nth_eq nth_list_update nth_eq_iff_index_eq)
  then have "contents ?w' as = (contents w as)[nat r := v]" by simp
  with res c' show ?thesis by blast
qed

lemma clear_container:
  assumes c: "container l w as" and ne: "lsize l \<noteq> 0"
  shows "\<exists>l' w'. clear l w = (l', w') \<and> container l' w' [] \<and>
           modCount l' = modCount l + 1 \<and> head l' = head l \<and> tail l' = tail l"
proof -
  from c have wl: "well_linked l w as" by (simp add: container_def)
  then have ht: "head l \<noteq> tail l" and hp: "prv (cells w (head l)) = None"
    and tn: "nxt (cells w (tail l)) = None" and b: "head l < fresh w" "tail l < fresh w"
    by (auto simp: well_linked_def Let_def)
  obtain l' w' where r: "clear l w = (l', w')" by (cases "clear l w")
  with ne have "container l' w' []"
    using ht hp tn b
    by (auto simp: clear_def Let_def container_def well_linked_def adj_def split: if_splits)
  moreover from r ne have "modCount l' = modCount l + 1 \<and> head l' = head l \<and> tail l' = tail l"
    by (auto simp: clear_def Let_def)
  ultimately show ?thesis using r by blast
qed

section \<open>Insertion and removal by index\<close>

text \<open>Adding a node after position \<open>k\<close> of the chain and the amortized rebuild.\<close>

lemma add_then_update:
  assumes c: "container l w as" and k: "k \<le> length as" and p: "p = (head l # as) ! k"
  shows "\<exists>w' a. bindR (addNodeAfter (Some p) v l w) (\<lambda>(_, l2, w2). amortizedUpdate l2 w2)
                 = ok (l\<lparr>lsize := lsize l + 1\<rparr>, w') \<and>
           container (l\<lparr>lsize := lsize l + 1\<rparr>) w' (take k as @ a # drop k as) \<and>
           contents w' (take k as @ a # drop k as)
             = take k (contents w as) @ v # drop k (contents w as)"
proof -
  from c have wl: "well_linked l w as" and sz: "lsize l = int (length as)"
    by (simp_all add: container_def)
  let ?l' = "l\<lparr>lsize := lsize l + 1\<rparr>" and ?as' = "take k as @ fresh w # drop k as"
  from addNodeAfter_linked [OF wl k p, of v]
  obtain w1 where a: "addNodeAfter (Some p) v l w = ok (fresh w, ?l', w1)"
    and wl1: "well_linked l w1 ?as'"
    and ct1: "contents w1 ?as' = take k (contents w as) @ v # drop k (contents w as)"
    by blast
  from wl1 have "well_linked ?l' w1 ?as'" by simp
  from amortizedUpdate_container [OF this]
  obtain w' where u: "amortizedUpdate ?l' w1 = ok (?l', w')"
    and wl': "well_linked ?l' w' ?as'" and ct': "contents w' ?as' = contents w1 ?as'"
    by blast
  have "container ?l' w' ?as'"
    using wl' sz k by (simp add: container_def)
  with a u ct1 ct' show ?thesis by auto
qed

lemma prepend_container:
  assumes c: "container l w as"
  shows "\<exists>w' a. prepend v l w = ok (l\<lparr>modCount := modCount l + 1, lsize := lsize l + 1\<rparr>, w') \<and>
           container (l\<lparr>modCount := modCount l + 1, lsize := lsize l + 1\<rparr>) w' (a # as) \<and>
           contents w' (a # as) = v # contents w as"
proof -
  let ?l1 = "l\<lparr>modCount := modCount l + 1\<rparr>"
  from c have c1: "container ?l1 w as" by simp
  from add_then_update [OF c1, of 0 "head l" v]
  show ?thesis by (simp add: prepend_def Let_def)
qed

lemma appendL_container:
  assumes c: "container l w as"
  shows "\<exists>w' a. appendL v l w = ok (l\<lparr>modCount := modCount l + 1, lsize := lsize l + 1\<rparr>, w') \<and>
           container (l\<lparr>modCount := modCount l + 1, lsize := lsize l + 1\<rparr>) w' (as @ [a]) \<and>
           contents w' (as @ [a]) = contents w as @ [v]"
proof -
  let ?l1 = "l\<lparr>modCount := modCount l + 1\<rparr>"
  from c have c1: "container ?l1 w as" and wl: "well_linked l w as"
    by (simp_all add: container_def)
  have tp: "prv (cells w (tail l)) = Some ((head l # as) ! length as)"
    using well_linked_tail_prev [OF wl] last_Cons_take [of "length as" as "head l"] by simp
  from add_then_update [OF c1, of "length as" "(head l # as) ! length as" v]
  show ?thesis by (simp add: appendL_def Let_def tp contents_def)
qed

lemma insertAt_container:
  assumes c: "container l w as"
    and lin: "r = 0 \<or> r = lsize l \<or> linear_seek l (r - 1)"
    and r: "r = (if index < 0 then lsize l + index + 1 else index)"
    and range: "0 \<le> r" "r \<le> lsize l"
  shows "\<exists>l' w' a. insertAt v index l w = ok (l', w') \<and>
           container l' w' (take (nat r) as @ a # drop (nat r) as) \<and>
           contents w' (take (nat r) as @ a # drop (nat r) as)
             = take (nat r) (contents w as) @ v # drop (nat r) (contents w as) \<and>
           modCount l < modCount l' \<and> lsize l' = lsize l + 1 \<and>
           head l' = head l \<and> tail l' = tail l"
proof -
  let ?l1 = "l\<lparr>modCount := modCount l + 1\<rparr>"
  from c have c1: "container ?l1 w as" and sz: "lsize l = int (length as)"
    by (simp_all add: container_def)
  have unf: "(if index < 0 then lsize l + index + 1 else index) = r" using r by simp
  have inr: "(r < 0 \<or> lsize l < r) = False" using range by auto
  consider (atFront) "r = 0" | (atEnd) "r \<noteq> 0" "r = lsize l"
    | (inMiddle) "r \<noteq> 0" "r \<noteq> lsize l"
    by blast
  then show ?thesis
  proof cases
    case atFront
    have eq: "insertAt v index l w = prepend v ?l1 w"
      using atFront range by (simp add: insertAt_def Let_def unf)
    let ?l' = "?l1\<lparr>modCount := modCount ?l1 + 1, lsize := lsize ?l1 + 1\<rparr>"
    from prepend_container [OF c1, of v] obtain w' a
      where p: "prepend v ?l1 w = ok (?l', w')"
        and c': "container ?l' w' (a # as)"
        and ct: "contents w' (a # as) = v # contents w as"
      by blast
    have "take (nat r) as @ a # drop (nat r) as = a # as" using atFront by simp
    moreover have "take (nat r) (contents w as) @ v # drop (nat r) (contents w as)
                     = v # contents w as" using atFront by simp
    ultimately show ?thesis
      unfolding eq p using c' ct
      by (intro exI [of _ ?l'] exI [of _ w'] exI [of _ a]) simp
  next
    case atEnd
    have eq: "insertAt v index l w = appendL v ?l1 w"
      using atEnd range by (simp add: insertAt_def Let_def unf)
    let ?l' = "?l1\<lparr>modCount := modCount ?l1 + 1, lsize := lsize ?l1 + 1\<rparr>"
    from appendL_container [OF c1, of v] obtain w' a
      where p: "appendL v ?l1 w = ok (?l', w')"
        and c': "container ?l' w' (as @ [a])"
        and ct: "contents w' (as @ [a]) = contents w as @ [v]"
      by blast
    have "take (nat r) as @ a # drop (nat r) as = as @ [a]" using atEnd sz by simp
    moreover have "take (nat r) (contents w as) @ v # drop (nat r) (contents w as)
                     = contents w as @ [v]" using atEnd sz by (simp add: contents_def)
    ultimately show ?thesis
      unfolding eq p using c' ct
      by (intro exI [of _ ?l'] exI [of _ w'] exI [of _ a]) simp
  next
    case inMiddle
    with range have rr: "0 \<le> r - 1" "r - 1 < lsize ?l1" by auto
    have lin1: "linear_seek ?l1 (r - 1)" using lin inMiddle by (simp add: linear_seek_def)
    have "nodeAt (r - 1) ?l1 w = ok (Some (as ! nat (r - 1)), r - 1)"
      using rr by (intro nodeAt_linear [OF c1 lin1 _ rr]) simp
    moreover have "as ! nat (r - 1) = (head l # as) ! nat r"
      using inMiddle range by (cases "nat r") (auto simp: nat_diff_distrib)
    ultimately have na: "nodeAt (r - 1) ?l1 w = ok (Some ((head l # as) ! nat r), r - 1)"
      by simp
    have eq: "insertAt v index l w =
                bindR (addNodeAfter (Some ((head l # as) ! nat r)) v ?l1 w)
                  (\<lambda>(_, l2, w2). amortizedUpdate l2 w2)"
      using inMiddle by (simp add: insertAt_def Let_def unf inr na)
    have k: "nat r \<le> length as" using range sz by linarith
    let ?l' = "?l1\<lparr>lsize := lsize ?l1 + 1\<rparr>"
    from add_then_update [OF c1 k refl, of v] obtain w' a
      where p: "bindR (addNodeAfter (Some ((head ?l1 # as) ! nat r)) v ?l1 w)
                  (\<lambda>(_, l2, w2). amortizedUpdate l2 w2) = ok (?l', w')"
        and c': "container ?l' w' (take (nat r) as @ a # drop (nat r) as)"
        and ct: "contents w' (take (nat r) as @ a # drop (nat r) as)
               = take (nat r) (contents w as) @ v # drop (nat r) (contents w as)"
      by blast
    have hd1: "head ?l1 = head l" by simp
    show ?thesis
      unfolding eq p [unfolded hd1] using c' ct
      by (intro exI [of _ ?l'] exI [of _ w'] exI [of _ a]) simp
  qed
qed

lemma maybe_update:
  assumes "well_linked l w as"
  shows "\<exists>w'. (if b then bindR (updateSkipLinks l w) (\<lambda>w3. ok (v, l, w3)) else ok (v, l, w))
               = ok (v, l, w') \<and>
           well_linked l w' as \<and> contents w' as = contents w as"
proof (cases b)
  case True
  from updateSkipLinks_container [OF assms] obtain w'
    where "updateSkipLinks l w = ok w'" "well_linked l w' as" "contents w' as = contents w as"
    by blast
  with True show ?thesis by simp
next
  case False
  with assms show ?thesis by simp
qed

lemma removeAt_container:
  assumes c: "container l w as"
    and lin: "linear_seek l r"
    and r: "r = (if index < 0 then lsize l + index else index)"
    and range: "0 \<le> r" "r < lsize l"
  shows "\<exists>l' w'. removeAt index l w = ok (contents w as ! nat r, l', w') \<and>
           container l' w' (take (nat r) as @ drop (Suc (nat r)) as) \<and>
           contents w' (take (nat r) as @ drop (Suc (nat r)) as)
             = take (nat r) (contents w as) @ drop (Suc (nat r)) (contents w as) \<and>
           modCount l' = modCount l + 1 \<and> lsize l' = lsize l - 1 \<and>
           head l' = head l \<and> tail l' = tail l"
proof -
  let ?l1 = "l\<lparr>modCount := modCount l + 1\<rparr>"
  let ?l2 = "?l1\<lparr>lsize := lsize ?l1 - 1\<rparr>"
  let ?as' = "take (nat r) as @ drop (Suc (nat r)) as"
  from c have wl1: "well_linked ?l1 w as" and sz: "lsize l = int (length as)"
    by (simp_all add: container_def)
  from range sz have k: "nat r < length as" by linarith
  have na: "nodeAt index l w = ok (Some (as ! nat r), r)"
    by (rule nodeAt_linear [OF c lin r range])
  from removeNode_linked [OF wl1 k] obtain w1
    where rm: "removeNode (Some (as ! nat r)) ?l1 w = ok (val (cells w (as ! nat r)), ?l2, w1)"
      and wl2: "well_linked ?l1 w1 ?as'"
      and ct: "contents w1 ?as' = take (nat r) (contents w as) @ drop (Suc (nat r)) (contents w as)"
    by blast
  have v: "contents w as ! nat r = val (cells w (as ! nat r))"
    using k by (simp add: contents_def)
  have c2: "container ?l2 w1 ?as'"
    using wl2 sz k by (simp add: container_def min_def)
  from c2 have wl3: "well_linked ?l2 w1 ?as'" by (simp add: container_def)
  define B where "B = (useSkipLinks ?l2 \<and> lsize ?l2 > 0 \<and> rebuildDue (lsize ?l2) (lsize ?l2 * 2))"
  define rv where "rv = val (cells w (as ! nat r))"
  have eq: "removeAt index l w =
      (if B then bindR (updateSkipLinks ?l2 w1) (\<lambda>w3. ok (rv, ?l2, w3)) else ok (rv, ?l2, w1))"
    unfolding removeAt_def na B_def rv_def
    by (simp only: bindR_ok prod.case option.case Let_def rm)
  from maybe_update [OF wl3, of B rv] obtain w'
    where "removeAt index l w = ok (rv, ?l2, w')"
      and wl': "well_linked ?l2 w' ?as'" and ct': "contents w' ?as' = contents w1 ?as'"
    unfolding eq by blast
  moreover have "container ?l2 w' ?as'" using wl' c2 by (simp add: container_def)
  ultimately show ?thesis
    using ct ct' v unfolding rv_def by (intro exI [of _ ?l2] exI [of _ w']) simp
qed

section \<open>Reversal\<close>

lemma reverse_loop_chain:
  "successively (\<lambda>x y. nxt (c x) = Some y) xs \<Longrightarrow> xs \<noteq> [] \<Longrightarrow> distinct xs \<Longrightarrow>
   nxt (c (last xs)) = None \<Longrightarrow>
   reverse_loop c (Some (hd xs)) = Some (\<lambda>a. if a \<in> set xs then swapped (c a) else c a)"
proof (induction xs arbitrary: c)
  case Nil
  then show ?case by simp
next
  case (Cons x xs)
  let ?c1 = "c(x := (c x)\<lparr>nxt := prv (c x), prv := nxt (c x)\<rparr>)"
  show ?case
  proof (cases xs)
    case Nil
    with Cons.prems have "nxt (c x) = None" by simp
    moreover have "reverse_loop ?c1 None = Some ?c1"
      by (subst reverse_loop.simps) simp
    moreover have "?c1 = (\<lambda>a. if a \<in> set (x # xs) then swapped (c a) else c a)"
      using Nil by (auto simp: fun_eq_iff swapped_def)
    ultimately show ?thesis
      by (subst reverse_loop.simps) simp
  next
    case (Cons y ys)
    with Cons.prems have n: "nxt (c x) = Some y" and x: "x \<notin> set xs"
      and rest: "successively (\<lambda>x y. nxt (c x) = Some y) xs" and d: "distinct xs"
      and l: "nxt (c (last xs)) = None"
      by auto
    have ne: "xs \<noteq> []" using Cons by simp
    have "successively (\<lambda>x y. nxt (?c1 x) = Some y) xs"
    proof (rule successively_mono [OF rest])
      fix a b assume "a \<in> set xs" "nxt (c a) = Some b"
      with x show "nxt (?c1 a) = Some b" by auto
    qed
    moreover have "nxt (?c1 (last xs)) = None"
      using l x last_in_set [OF ne] by auto
    ultimately have "reverse_loop ?c1 (Some (hd xs))
                       = Some (\<lambda>a. if a \<in> set xs then swapped (?c1 a) else ?c1 a)"
      using ne d by (intro Cons.IH)
    moreover have "(\<lambda>a. if a \<in> set xs then swapped (?c1 a) else ?c1 a)
                     = (\<lambda>a. if a \<in> set (x # xs) then swapped (c a) else c a)"
      using x by (auto simp: fun_eq_iff swapped_def)
    ultimately show ?thesis
      using Cons n by (subst reverse_loop.simps) simp
  qed
qed

lemma reverse_container:
  assumes c: "container l w as" and two: "2 \<le> lsize l"
  shows "\<exists>l' w'. reverse l w = ok (l', w') \<and> container l' w' (rev as) \<and>
           contents w' (rev as) = rev (contents w as) \<and>
           modCount l' = modCount l + 1 \<and> lsize l' = lsize l \<and>
           head l' = tail l \<and> tail l' = head l"
proof -
  let ?ns = "head l # as @ [tail l]"
  let ?l1 = "l\<lparr>modCount := modCount l + 1\<rparr>"
  let ?l2 = "?l1\<lparr>head := tail ?l1, tail := head ?l1\<rparr>"
  let ?c' = "\<lambda>a. if a \<in> set ?ns then swapped (cells w a) else cells w a"
  let ?w2 = "w\<lparr>cells := ?c'\<rparr>"
  from c have wl: "well_linked l w as" and sz: "lsize l = int (length as)"
    by (simp_all add: container_def)
  from wl have succ: "successively (adj (cells w)) ?ns" and dist: "distinct ?ns"
    and hp: "prv (cells w (head l)) = None" and tn: "nxt (cells w (tail l)) = None"
    and below: "list_all (\<lambda>a. a < fresh w) ?ns"
    unfolding well_linked_def Let_def by blast+
  have "reverse_loop (cells w) (Some (hd ?ns)) = Some ?c'"
    using adj_fwd [OF succ] dist tn by (intro reverse_loop_chain) simp_all
  then have loop: "reverse_loop (cells w) (Some (head l)) = Some ?c'" by simp
  have "successively (\<lambda>x y. adj ?c' y x) ?ns"
    using succ by (rule successively_mono) (auto simp: adj_def swapped_def)
  then have "successively (adj ?c') (rev ?ns)" by (simp only: successively_rev)
  moreover have "rev ?ns = head ?l2 # rev as @ [tail ?l2]" by simp
  ultimately have "successively (adj (cells ?w2)) (head ?l2 # rev as @ [tail ?l2])" by simp
  moreover have "distinct (head ?l2 # rev as @ [tail ?l2])" using dist by auto
  moreover have "prv (cells ?w2 (head ?l2)) = None" using tn by (simp add: swapped_def)
  moreover have "nxt (cells ?w2 (tail ?l2)) = None" using hp by (simp add: swapped_def)
  moreover have "list_all (\<lambda>a. a < fresh ?w2) (head ?l2 # rev as @ [tail ?l2])"
    using below by (auto simp: list_all_iff)
  ultimately have wl2: "well_linked ?l2 ?w2 (rev as)"
    unfolding well_linked_def Let_def by blast
  have ct2: "contents ?w2 (rev as) = rev (contents w as)"
    by (simp add: contents_def rev_map swapped_def)
  define B where "B = useSkipLinks ?l2"
  have eq: "reverse l w =
      bindR (if B then updateSkipLinks ?l2 ?w2 else ok ?w2)
        (\<lambda>w3. ok (?l2, if observable ?l2 then notify Reverse ?l2 w3 else w3))"
    using two unfolding B_def by (simp add: reverse_def Let_def loop cong: if_cong)
  have "\<exists>w3. (if B then updateSkipLinks ?l2 ?w2 else ok ?w2) = ok w3 \<and>
          well_linked ?l2 w3 (rev as) \<and> contents w3 (rev as) = contents ?w2 (rev as)"
    using updateSkipLinks_container [OF wl2] wl2 by (cases B) auto
  then obtain w3 where u: "(if B then updateSkipLinks ?l2 ?w2 else ok ?w2) = ok w3"
    and wl3: "well_linked ?l2 w3 (rev as)" and ct3: "contents w3 (rev as) = contents ?w2 (rev as)"
    by blast
  let ?w' = "if observable ?l2 then notify Reverse ?l2 w3 else w3"
  have "reverse l w = ok (?l2, ?w')" unfolding eq u by simp
  moreover have "container ?l2 ?w' (rev as)"
    using wl3 sz by (simp add: container_def)
  moreover have "contents ?w' (rev as) = rev (contents w as)"
    using ct3 ct2 by simp
  ultimately show ?thesis
    by (intro exI [of _ ?l2] exI [of _ ?w']) simp
qed

section \<open>Sorting keeps the chain\<close>

lemma length_js_insert [simp]: "length (js_insert f x ys) = Suc (length ys)"
  by (induction ys) auto

lemma length_js_sort [simp]: "length (js_sort f xs) = length xs"
  by (induction xs) (auto simp: js_sort_def)

lemma sort_collect_chain:
  "successively (\<lambda>x y. nxt (c x) = Some y) (p # as @ [t]) \<Longrightarrow> t \<notin> set as \<Longrightarrow>
   sort_collect t c (nxt (c p)) acc
     = Some (Inr (acc @ map (\<lambda>a. (val (c a), insertionIndex (c a))) as))"
proof (induction as arbitrary: p acc)
  case Nil
  then show ?case by (subst sort_collect.simps) simp
next
  case (Cons a as)
  from Cons.prems have n: "nxt (c p) = Some a" and at: "a \<noteq> t"
    and rest: "successively (\<lambda>x y. nxt (c x) = Some y) (a # as @ [t])" and t: "t \<notin> set as"
    by auto
  show ?case
    by (subst sort_collect.simps) (simp add: n at Cons.IH [OF rest t])
qed

lemma sort_rewrite_chain:
  "successively (\<lambda>x y. nxt (c x) = Some y) (p # as @ [t]) \<Longrightarrow> distinct as \<Longrightarrow>
   length items = length as \<Longrightarrow>
   \<exists>c'. sort_rewrite items c (nxt (c p)) = ok c' \<and>
        (\<forall>x. nxt (c' x) = nxt (c x) \<and> prv (c' x) = prv (c x)) \<and>
        (\<forall>x. x \<notin> set as \<longrightarrow> c' x = c x) \<and>
        map (\<lambda>a. val (c' a)) as = map fst items"
proof (induction as arbitrary: p c items)
  case Nil
  then show ?case by simp
next
  case (Cons a as)
  from Cons.prems obtain i items' where it: "items = i # items'" and len: "length items' = length as"
    by (cases items) auto
  from Cons.prems have n: "nxt (c p) = Some a" and a: "a \<notin> set as" and d: "distinct as"
    and rest: "successively (\<lambda>x y. nxt (c x) = Some y) (a # as @ [t])"
    by auto
  let ?c1 = "c(a := (c a)\<lparr>val := fst i\<rparr>)"
  have rest1: "successively (\<lambda>x y. nxt (?c1 x) = Some y) (a # as @ [t])"
  proof (rule successively_mono [OF rest])
    fix x y assume "nxt (c x) = Some y"
    then show "nxt (?c1 x) = Some y" by auto
  qed
  from Cons.IH [OF rest1 d len] obtain c'
    where r: "sort_rewrite items' ?c1 (nxt (?c1 a)) = ok c'"
      and links: "\<And>x. nxt (c' x) = nxt (?c1 x) \<and> prv (c' x) = prv (?c1 x)"
      and frame: "\<And>x. x \<notin> set as \<Longrightarrow> c' x = ?c1 x"
      and vals: "map (\<lambda>a. val (c' a)) as = map fst items'"
    by blast
  have "sort_rewrite items c (nxt (c p)) = ok c'"
    using r by (simp add: it n)
  moreover have "\<forall>x. nxt (c' x) = nxt (c x) \<and> prv (c' x) = prv (c x)"
    using links by simp
  moreover have "\<forall>x. x \<notin> set (a # as) \<longrightarrow> c' x = c x"
    using frame by simp
  moreover have "map (\<lambda>a. val (c' a)) (a # as) = map fst items"
    using vals frame [OF a] by (simp add: it)
  ultimately show ?case by blast
qed

lemma sortL_container:
  assumes c: "container l w as" and two: "2 \<le> lsize l"
  shows "\<exists>w'. sortL compareFn l w = ok (l\<lparr>modCount := modCount l + 1\<rparr>, w') \<and>
           container (l\<lparr>modCount := modCount l + 1\<rparr>) w' as \<and>
           contents w' as = map fst (js_sort (compareWithIndex compareFn)
              (map (\<lambda>a. (val (cells w a), insertionIndex (cells w a))) as))"
proof -
  let ?l1 = "l\<lparr>modCount := modCount l + 1\<rparr>"
  let ?nodes = "map (\<lambda>a. (val (cells w a), insertionIndex (cells w a))) as"
  let ?sorted = "js_sort (compareWithIndex compareFn) ?nodes"
  from c have c1: "container ?l1 w as" and wl: "well_linked l w as"
    and sz: "lsize l = int (length as)"
    by (simp_all add: container_def)
  from well_linked_fwd [OF wl]
  have fwd: "successively (\<lambda>x y. nxt (cells w x) = Some y) (head l # as @ [tail l])"
    and t: "tail l \<notin> set as" by simp_all
  have ta: "toArray ?l1 w = ok (contents w as)"
    using toArray_container [OF c1] .
  have "sort_collect (tail l) (cells w) (nxt (cells w (head l))) [] = Some (Inr ([] @ ?nodes))"
    by (rule sort_collect_chain [OF fwd t])
  then have col: "sort_collect (tail l) (cells w) (nxt (cells w (head l))) [] = ok ?nodes"
    by (simp add: ok_def)
  from sort_rewrite_chain [OF fwd well_linked_distinct [OF wl], of ?sorted] obtain c'
    where rw: "sort_rewrite ?sorted (cells w) (nxt (cells w (head l))) = ok c'"
      and links: "\<And>x. nxt (c' x) = nxt (cells w x) \<and> prv (c' x) = prv (cells w x)"
      and vals: "map (\<lambda>a. val (c' a)) as = map fst ?sorted"
    by auto
  let ?w1 = "w\<lparr>cells := c'\<rparr>"
  let ?w' = "if observable ?l1 then notify Sort ?l1 ?w1 else ?w1"
  have "sortL compareFn l w = ok (?l1, ?w')"
    using two by (simp add: sortL_def Let_def ta col rw cong: if_cong)
  moreover have "well_linked l ?w1 as"
    using wl by (subst links_linked [of _ w]) (simp_all add: links)
  then have "container ?l1 ?w' as"
    using sz by (simp add: container_def)
  moreover have "contents ?w' as = map fst ?sorted"
    using vals by (simp add: contents_def)
  ultimately show ?thesis by blast
qed

section \<open>Concatenation\<close>

lemma concatL_cells:
  assumes "lsize other \<noteq> 0" and "prv (cells w (tail l)) = Some lst"
    and "nxt (cells w (head other)) = Some oh" and "prv (cells w (tail other)) = Some ot"
  shows "\<exists>c6. concatL l other w =
            bindR (if useSkipLinks l
                   then updateSkipLinks
                          (l\<lparr>modCount := modCount l + 1, lsize := lsize l + lsize other\<rparr>)
                          (w\<lparr>cells := c6\<rparr>)
                   else ok (w\<lparr>cells := c6\<rparr>))
              (\<lambda>w2. ok (l\<lparr>modCount := modCount l + 1, lsize := lsize l + lsize other\<rparr>,
                        other\<lparr>lsize := 0\<rparr>,
                        if observable l
                        then notify (Concat (lsize l + lsize other))
                               (l\<lparr>modCount := modCount l + 1, lsize := lsize l + lsize other\<rparr>) w2
                        else w2)) \<and>
          (\<forall>x. nxt (c6 x) = (if x = head other then Some (tail other)
                               else if x = ot then Some (tail l)
                               else if x = lst then Some oh else nxt (cells w x))) \<and>
          (\<forall>x. prv (c6 x) = (if x = tail other then Some (head other)
                               else if x = tail l then Some ot
                               else if x = oh then Some lst else prv (cells w x))) \<and>
          (\<forall>x. val (c6 x) = val (cells w x))"
proof -
  define c1 where "c1 = (cells w)(lst := (cells w lst)\<lparr>nxt := Some oh\<rparr>)"
  define c2 where "c2 = c1(oh := (c1 oh)\<lparr>prv := Some lst\<rparr>)"
  define c3 where "c3 = c2(ot := (c2 ot)\<lparr>nxt := Some (tail l)\<rparr>)"
  define c4 where "c4 = c3(tail l := (c3 (tail l))\<lparr>prv := Some ot\<rparr>)"
  define c5 where "c5 = c4(head other := (c4 (head other))\<lparr>nxt := Some (tail other)\<rparr>)"
  define c6 where "c6 = c5(tail other := (c5 (tail other))\<lparr>prv := Some (head other)\<rparr>)"
  have "concatL l other w =
            bindR (if useSkipLinks l
                   then updateSkipLinks
                          (l\<lparr>modCount := modCount l + 1, lsize := lsize l + lsize other\<rparr>)
                          (w\<lparr>cells := c6\<rparr>)
                   else ok (w\<lparr>cells := c6\<rparr>))
              (\<lambda>w2. ok (l\<lparr>modCount := modCount l + 1, lsize := lsize l + lsize other\<rparr>,
                        other\<lparr>lsize := 0\<rparr>,
                        if observable l
                        then notify (Concat (lsize l + lsize other))
                               (l\<lparr>modCount := modCount l + 1, lsize := lsize l + lsize other\<rparr>) w2
                        else w2))"
    unfolding c6_def c5_def c4_def c3_def c2_def c1_def
    using assms by (simp add: concatL_def Let_def cong: if_cong)
  moreover have "nxt (c6 x) = (if x = head other then Some (tail other)
                               else if x = ot then Some (tail l)
                               else if x = lst then Some oh else nxt (cells w x))" for x
    by (simp add: c6_def c5_def c4_def c3_def c2_def c1_def)
  moreover have "prv (c6 x) = (if x = tail other then Some (head other)
                               else if x = tail l then Some ot
                               else if x = oh then Some lst else prv (cells w x))" for x
    by (simp add: c6_def c5_def c4_def c3_def c2_def c1_def)
  moreover have "val (c6 x) = val (cells w x)" for x
    by (simp add: c6_def c5_def c4_def c3_def c2_def c1_def)
  ultimately show ?thesis by blast
qed


lemma concatL_empty_donor:
  "lsize other = 0 \<Longrightarrow> concatL l other w = ok (l, other, w)"
  by (simp add: concatL_def)

lemma concatL_container:
  assumes cA: "container l w as" and cB: "container other w bs" and ne: "bs \<noteq> []"
    and disj: "set (head l # as @ [tail l]) \<inter> set (head other # bs @ [tail other]) = {}"
  shows "\<exists>l' other' w'. concatL l other w = ok (l', other', w') \<and>
           container l' w' (as @ bs) \<and> container other' w' [] \<and>
           contents w' (as @ bs) = contents w as @ contents w bs \<and>
           modCount l' = modCount l + 1 \<and> lsize l' = lsize l + lsize other \<and>
           head l' = head l \<and> tail l' = tail l"
proof -
  let ?c = "cells w"
  let ?l2 = "l\<lparr>modCount := modCount l + 1, lsize := lsize l + lsize other\<rparr>"
  let ?o' = "other\<lparr>lsize := 0\<rparr>"
  define xs where "xs = head l # as"
  define lst where "lst = last xs"
  define oh where "oh = hd bs"
  define ot where "ot = last bs"
  from cA have wlA: "well_linked l w as" and szA: "lsize l = int (length as)"
    by (simp_all add: container_def)
  from cB have wlB: "well_linked other w bs" and szB: "lsize other = int (length bs)"
    by (simp_all add: container_def)
  have nsA: "head l # as @ [tail l] = xs @ [tail l]" by (simp add: xs_def)
  have nsB: "head other # bs @ [tail other] = [head other] @ bs @ [tail other]" by simp
  from wlA have succA: "successively (adj ?c) (xs @ [tail l])"
    and distA: "distinct (xs @ [tail l])"
    and hpA: "prv (?c (head l)) = None" and tnA: "nxt (?c (tail l)) = None"
    and belowA: "list_all (\<lambda>a. a < fresh w) (xs @ [tail l])"
    unfolding well_linked_def Let_def nsA by blast+
  from wlB have succB: "successively (adj ?c) ([head other] @ bs @ [tail other])"
    and distB: "distinct ([head other] @ bs @ [tail other])"
    and hpB: "prv (?c (head other)) = None" and tnB: "nxt (?c (tail other)) = None"
    and belowB: "list_all (\<lambda>a. a < fresh w) ([head other] @ bs @ [tail other])"
    unfolding well_linked_def Let_def nsB by blast+
  have xne: "xs \<noteq> []" by (simp add: xs_def)
  have lstx: "lst \<in> set xs" unfolding lst_def by (rule last_in_set [OF xne])
  have ohb: "oh \<in> set bs" unfolding oh_def by (rule hd_in_set [OF ne])
  have otb: "ot \<in> set bs" unfolding ot_def by (rule last_in_set [OF ne])
  have hx: "head l \<in> set xs" by (simp add: xs_def)
  from disj have dAB: "set (xs @ [tail l]) \<inter> set ([head other] @ bs @ [tail other]) = {}"
    unfolding nsA nsB .
  \<comment> \<open>the three pointers read by the method\<close>
  from succA xne have "adj ?c lst (tail l)"
    unfolding successively_append_iff lst_def by simp
  then have p1: "prv (?c (tail l)) = Some lst" by (simp add: adj_def)
  from succB ne have "adj ?c (head other) oh" "adj ?c ot (tail other)"
    and sb: "successively (adj ?c) bs"
    unfolding successively_append_iff oh_def ot_def by (simp_all add: hd_append)
  then have p2: "nxt (?c (head other)) = Some oh" and p3: "prv (?c (tail other)) = Some ot"
    by (simp_all add: adj_def)
  from succA xne have sx: "successively (adj ?c) xs"
    unfolding successively_append_iff by simp
  from szB ne have nz: "lsize other \<noteq> 0" by simp
  from concatL_cells [OF nz p1 p2 p3] obtain c6
    where eq: "concatL l other w =
            bindR (if useSkipLinks l then updateSkipLinks ?l2 (w\<lparr>cells := c6\<rparr>)
                   else ok (w\<lparr>cells := c6\<rparr>))
              (\<lambda>w2. ok (?l2, ?o',
                        if observable l then notify (Concat (lsize l + lsize other)) ?l2 w2
                        else w2))"
      and nx: "\<And>x. nxt (c6 x) = (if x = head other then Some (tail other)
                               else if x = ot then Some (tail l)
                               else if x = lst then Some oh else nxt (?c x))"
      and pr: "\<And>x. prv (c6 x) = (if x = tail other then Some (head other)
                               else if x = tail l then Some ot
                               else if x = oh then Some lst else prv (?c x))"
      and vl: "\<And>x. val (c6 x) = val (?c x)"
    by blast
  \<comment> \<open>inequalities between the nodes involved\<close>
  have inA: "\<And>x. x \<in> set xs \<Longrightarrow> x \<noteq> head other \<and> x \<noteq> tail other \<and> x \<notin> set bs \<and> x \<noteq> tail l"
    using dAB distA by auto
  have inB: "\<And>x. x \<in> set bs \<Longrightarrow> x \<noteq> head other \<and> x \<noteq> tail other \<and> x \<noteq> tail l \<and> x \<notin> set xs"
    using dAB distB by auto
  have tails: "tail l \<noteq> tail other" "tail l \<noteq> head other" "head other \<noteq> tail other"
    using dAB distB by auto
  \<comment> \<open>the receiver's chain\<close>
  have sx6: "successively (adj c6) xs"
  proof (rule adj_frame_distinct [OF sx])
    show "distinct xs" using distA by simp
  next
    fix x assume "x \<in> set xs" "x \<noteq> last xs"
    then show "nxt (c6 x) = nxt (?c x)" using inA [of x] otb by (auto simp: nx lst_def)
  next
    fix x assume "x \<in> set xs" "x \<noteq> hd xs"
    then show "prv (c6 x) = prv (?c x)" using inA [of x] ohb by (auto simp: pr)
  qed
  have sb6: "successively (adj c6) bs"
  proof (rule adj_frame_distinct [OF sb])
    show "distinct bs" using distB by simp
  next
    fix x assume "x \<in> set bs" "x \<noteq> last bs"
    then show "nxt (c6 x) = nxt (?c x)" using inB [of x] lstx by (auto simp: nx ot_def)
  next
    fix x assume "x \<in> set bs" "x \<noteq> hd bs"
    then show "prv (c6 x) = prv (?c x)" using inB [of x] by (auto simp: pr oh_def)
  qed
  have j1: "adj c6 (last xs) (hd bs)"
    using inA [OF lstx] inB [OF ohb] otb by (auto simp: adj_def nx pr lst_def [symmetric] oh_def [symmetric])
  have j2: "adj c6 (last bs) (tail l)"
    using inB [OF otb] tails by (auto simp: adj_def nx pr ot_def [symmetric])
  have full: "head ?l2 # (as @ bs) @ [tail ?l2] = xs @ bs @ [tail l]"
    by (simp add: xs_def)
  have "successively (adj c6) (xs @ bs @ [tail l])"
    using sx6 sb6 j1 j2 ne xne by (simp add: successively_append_iff hd_append)
  moreover have "distinct (xs @ bs @ [tail l])"
    using distA distB inA inB by auto
  moreover have "prv (c6 (head l)) = None"
    using inA [OF hx] ohb hpA by (auto simp: pr)
  moreover have "nxt (c6 (tail l)) = None"
    using tails inA [OF lstx] inB [OF otb] tnA by (auto simp: nx)
  moreover have "list_all (\<lambda>a. a < fresh w) (xs @ bs @ [tail l])"
    using belowA belowB by (auto simp: list_all_iff)
  ultimately have wl2: "well_linked ?l2 (w\<lparr>cells := c6\<rparr>) (as @ bs)"
    unfolding well_linked_def Let_def full by simp
  \<comment> \<open>the donor's chain\<close>
  have "adj c6 (head other) (tail other)"
    using tails by (auto simp: adj_def nx pr)
  moreover have "prv (c6 (head other)) = None"
    using tails inB [OF ohb] hpB by (auto simp: pr)
  moreover have "nxt (c6 (tail other)) = None"
    using tails inA [OF lstx] inB [OF otb] tnB by (auto simp: nx)
  ultimately have wlo: "well_linked ?o' (w\<lparr>cells := c6\<rparr>) []"
    using tails belowB by (simp add: well_linked_def)
  have ct6: "contents (w\<lparr>cells := c6\<rparr>) (as @ bs) = contents w as @ contents w bs"
    by (simp add: contents_def vl)
  \<comment> \<open>the rebuild of the skip-links and the notification\<close>
  define B where "B = useSkipLinks l"
  have "\<exists>w2. (if B then updateSkipLinks ?l2 (w\<lparr>cells := c6\<rparr>) else ok (w\<lparr>cells := c6\<rparr>)) = ok w2 \<and>
          skip_only c6 (cells w2) \<and> fresh w2 = fresh w"
  proof (cases B)
    case True
    from updateSkipLinks_linked [OF wl2] obtain c'
      where "updateSkipLinks ?l2 (w\<lparr>cells := c6\<rparr>) = ok (w\<lparr>cells := c6\<rparr>\<lparr>cells := c'\<rparr>)"
        and "skip_only c6 c'" by auto
    with True show ?thesis by auto
  next
    case False
    then show ?thesis by auto
  qed
  then obtain w2
    where u: "(if B then updateSkipLinks ?l2 (w\<lparr>cells := c6\<rparr>) else ok (w\<lparr>cells := c6\<rparr>)) = ok w2"
      and so: "skip_only (cells (w\<lparr>cells := c6\<rparr>)) (cells w2)"
      and fr: "fresh w2 = fresh (w\<lparr>cells := c6\<rparr>)"
    by auto
  let ?w' = "if observable l then notify (Concat (lsize l + lsize other)) ?l2 w2 else w2"
  have res: "concatL l other w = ok (?l2, ?o', ?w')"
    unfolding eq B_def [symmetric] u by simp
  have "well_linked ?l2 w2 (as @ bs)"
    using wl2 by (simp only: skip_only_linked [OF so fr])
  then have c2: "container ?l2 ?w' (as @ bs)"
    using szA szB by (simp add: container_def)
  have "well_linked ?o' w2 []"
    using wlo by (simp only: skip_only_linked [OF so fr])
  then have co: "container ?o' ?w' []"
    by (simp add: container_def)
  have "contents ?w' (as @ bs) = contents w as @ contents w bs"
    using ct6 skip_only_contents [OF so, of "as @ bs"] by simp
  with res c2 co show ?thesis
    by (intro exI [of _ ?l2] exI [of _ ?o'] exI [of _ ?w']) simp
qed

section \<open>The integer square root\<close>

lemma isqrt_up_bounds:
  "r * r \<le> n \<Longrightarrow> isqrt_up n r * isqrt_up n r \<le> n \<and> n < (isqrt_up n r + 1) * (isqrt_up n r + 1)"
proof (induction n r rule: isqrt_up.induct)
  case (1 n r)
  show ?case
  proof (cases "(r + 1) * (r + 1) \<le> n")
    case True
    with "1.IH" have "isqrt_up n (r + 1) * isqrt_up n (r + 1) \<le> n \<and>
        n < (isqrt_up n (r + 1) + 1) * (isqrt_up n (r + 1) + 1)"
      by simp
    with True show ?thesis by (subst (1 2 3 4) isqrt_up.simps) simp
  next
    case False
    with "1.prems" show ?thesis by (subst (1 2 3 4) isqrt_up.simps) simp
  qed
qed

lemma floor_sqrt_bounds:
  assumes "0 \<le> n"
  shows "0 \<le> floor_sqrt n \<and> floor_sqrt n * floor_sqrt n \<le> n \<and>
         n < (floor_sqrt n + 1) * (floor_sqrt n + 1)"
proof -
  from isqrt_up_bounds [of 0 "nat n"]
  have "isqrt_up (nat n) 0 * isqrt_up (nat n) 0 \<le> nat n"
    and "nat n < (isqrt_up (nat n) 0 + 1) * (isqrt_up (nat n) 0 + 1)"
    by simp_all
  then have "int (isqrt_up (nat n) 0 * isqrt_up (nat n) 0) \<le> int (nat n)"
    and "int (nat n) < int ((isqrt_up (nat n) 0 + 1) * (isqrt_up (nat n) 0 + 1))"
    by (simp_all only: of_nat_le_iff of_nat_less_iff)
  with assms show ?thesis by (simp add: floor_sqrt_def algebra_simps)
qed

section \<open>Values read by a linear seek\<close>

lemma get_linear:
  assumes "container l w as" and "linear_seek l r"
    and "r = (if index < 0 then lsize l + index else index)" and "0 \<le> r" and "r < lsize l"
  shows "get index l w = ok (contents w as ! nat r)"
proof -
  from assms(1,4,5) have "nat r < length as" by (simp add: container_def)
  then show ?thesis
    by (simp add: get_def nodeAt_linear [OF assms] contents_def)
qed

section \<open>What a commit delivers\<close>

text \<open>What \<^verbatim>\<open>commit()\<close> of an active transaction delivers: to each registered listener, the
  buffered events, each once, in the order they were buffered.\<close>

lemma delivered_to_one:
  assumes "distinct ks" and "k \<in> set ks"
  shows "map snd (filter (\<lambda>d. fst d = k) (List.concat (map (\<lambda>ev. map (\<lambda>k. (k, ev)) ks) evs))) = evs"
proof (induction evs)
  case Nil
  show ?case by simp
next
  case (Cons ev evs)
  have "filter (\<lambda>d. fst d = k) (map (\<lambda>k. (k, ev)) ks) = [(k, ev)]"
    using assms
  proof (induction ks)
    case Nil
    then show ?case by simp
  next
    case (Cons a ks)
    show ?case
    proof (cases "a = k")
      case True
      with Cons.prems have "k \<notin> set ks" by simp
      then have "filter (\<lambda>d. fst d = k) (map (\<lambda>k. (k, ev)) ks) = []"
        by (auto simp: filter_empty_conv)
      with True show ?thesis by simp
    next
      case False
      with Cons show ?thesis by simp
    qed
  qed
  with Cons.IH show ?case by simp
qed

lemma commit_delivers_buffer:
  assumes "active (txns w t)" and "distinct (listeners l)" and "k \<in> set (listeners l)"
  shows "\<exists>new. delivered (snd (txn_commit t l w)) = delivered w @ new \<and>
           map snd (filter (\<lambda>d. fst d = k) new) = events (txns w t) \<and>
           events (txns (snd (txn_commit t l w)) t) = [] \<and>
           transaction (fst (txn_commit t l w)) = None"
  using assms delivered_to_one [OF assms(2,3)] by (simp add: txn_commit_def)

section \<open>The constructor establishes the invariant\<close>

lemma push_loop_container:
  "container l w as \<Longrightarrow>
   \<exists>l' w' bs. push_loop vs l w = ok (l', w') \<and> container l' w' (as @ bs) \<and>
      contents w' (as @ bs) = contents w as @ vs \<and> l' = l\<lparr>lsize := lsize l + int (length vs)\<rparr>"
proof (induction vs arbitrary: l w as)
  case Nil
  then show ?case by (intro exI [of _ l] exI [of _ w] exI [of _ "[]"]) simp
next
  case (Cons v vs)
  from Cons.prems have wl: "well_linked l w as" and sz: "lsize l = int (length as)"
    by (simp_all add: container_def)
  have tp: "prv (cells w (tail l)) = Some ((head l # as) ! length as)"
    using well_linked_tail_prev [OF wl] last_Cons_take [of "length as" as "head l"] by simp
  let ?l1 = "l\<lparr>lsize := lsize l + 1\<rparr>"
  from addNodeAfter_linked [OF wl le_refl refl, of v] obtain w1
    where a: "addNodeAfter (Some ((head l # as) ! length as)) v l w = ok (fresh w, ?l1, w1)"
      and wl1: "well_linked l w1 (as @ [fresh w])"
      and ct1: "contents w1 (as @ [fresh w]) = contents w as @ [v]"
    by (auto simp: contents_def)
  have c1: "container ?l1 w1 (as @ [fresh w])"
    using wl1 sz by (simp add: container_def)
  from Cons.IH [OF c1] obtain l' w' bs
    where p: "push_loop vs ?l1 w1 = ok (l', w')"
      and c': "container l' w' ((as @ [fresh w]) @ bs)"
      and ct': "contents w' ((as @ [fresh w]) @ bs) = contents w1 (as @ [fresh w]) @ vs"
      and l': "l' = ?l1\<lparr>lsize := lsize ?l1 + int (length vs)\<rparr>"
    by blast
  have "push_loop (v # vs) l w = ok (l', w')"
    by (simp add: tp a p)
  moreover have "container l' w' (as @ (fresh w # bs))" using c' by simp
  moreover have "contents w' (as @ (fresh w # bs)) = contents w as @ v # vs"
    using ct' ct1 by simp
  moreover have "l' = l\<lparr>lsize := lsize l + int (length (v # vs))\<rparr>"
    using l' by simp
  ultimately show ?case by blast
qed

text \<open>The constructor establishes the invariant, whatever the store it starts from.\<close>

lemma construct_container:
  "\<exists>l w' as. construct iterable skipLinks obs w = ok (l, w') \<and> container l w' as \<and>
      contents w' as = (case iterable of None \<Rightarrow> [] | Some vs \<Rightarrow> vs) \<and>
      useSkipLinks l = skipLinks \<and> observable l = obs \<and> transaction l = None"
proof -
  define l0 where "l0 = \<lparr>head = fresh w, tail = Suc (fresh w), lsize = 0, useSkipLinks = skipLinks,
     observable = obs, listeners = [], transaction = None, modCount = 0\<rparr>"
  define c1 where "c1 = (cells w)(fresh w := newNode None)"
  define c2 where "c2 = c1(Suc (fresh w) := newNode None)"
  define c3 where "c3 = c2(fresh w := (c2 (fresh w))\<lparr>nxt := Some (Suc (fresh w))\<rparr>)"
  define c4 where "c4 = c3(Suc (fresh w) := (c3 (Suc (fresh w)))\<lparr>prv := Some (fresh w)\<rparr>)"
  define w1 where "w1 = w\<lparr>cells := c4, fresh := Suc (Suc (fresh w))\<rparr>"
  have c0: "container l0 w1 []"
    by (simp add: container_def well_linked_def adj_def l0_def w1_def c4_def c3_def c2_def
        c1_def newNode_def)
  have eq: "construct iterable skipLinks obs w =
      bindR (case iterable of None \<Rightarrow> ok (l0, w1)
             | Some vs \<Rightarrow> bindR (push vs l0 w1) (\<lambda>(_, l', w'). ok (l', w')))
        (\<lambda>(l2, w2). bindR (if useSkipLinks l2 then updateSkipLinks l2 w2 else ok w2)
           (\<lambda>w3. ok (l2, w3)))"
    unfolding construct_def Let_def l0_def w1_def c4_def c3_def c2_def c1_def ..
  have "\<exists>l2 w2 as. (case iterable of None \<Rightarrow> ok (l0, w1)
             | Some vs \<Rightarrow> bindR (push vs l0 w1) (\<lambda>(_, l', w'). ok (l', w'))) = ok (l2, w2) \<and>
          container l2 w2 as \<and>
          contents w2 as = (case iterable of None \<Rightarrow> [] | Some vs \<Rightarrow> vs) \<and>
          useSkipLinks l2 = skipLinks \<and> observable l2 = obs \<and> transaction l2 = None"
  proof (cases iterable)
    case None
    with c0 show ?thesis
      by (intro exI [of _ l0] exI [of _ w1] exI [of _ "[]"]) (simp add: contents_def l0_def)
  next
    case (Some vs)
    let ?l1 = "l0\<lparr>modCount := modCount l0 + 1\<rparr>"
    have c1: "container ?l1 w1 []" using c0 by simp
    from push_loop_container [OF c1, of vs] obtain l' w' bs
      where p: "push_loop vs ?l1 w1 = ok (l', w')" and c': "container l' w' bs"
        and ct: "contents w' bs = vs" and l': "l' = ?l1\<lparr>lsize := lsize ?l1 + int (length vs)\<rparr>"
      by (auto simp: contents_def)
    from c' have wl': "well_linked l' w' bs" and sz': "lsize l' = int (length bs)"
      by (simp_all add: container_def)
    from l' have f: "useSkipLinks l' = skipLinks" "observable l' = obs" "transaction l' = None"
      by (simp_all add: l0_def)
    define B where "B = (useSkipLinks l' \<and> vs \<noteq> [])"
    have "\<exists>w3. (if B then updateSkipLinks l' w' else ok w') = ok w3 \<and>
            well_linked l' w3 bs \<and> contents w3 bs = contents w' bs"
      using updateSkipLinks_container [OF wl'] wl' by (cases B) auto
    then obtain w3 where u: "(if B then updateSkipLinks l' w' else ok w') = ok w3"
      and wl3: "well_linked l' w3 bs" and ct3: "contents w3 bs = contents w' bs"
      by blast
    have t0: "transaction l0 = None" by (simp add: l0_def)
    have "push vs l0 w1 = ok (lsize l', l', w3)"
      by (simp add: push_def Let_def t0 p f(3) u [unfolded B_def])
    moreover have "container l' w3 bs" using wl3 sz' by (simp add: container_def)
    ultimately show ?thesis
      using Some ct ct3 f
      by (intro exI [of _ l'] exI [of _ w3] exI [of _ bs]) simp
  qed
  then obtain l2 w2 as
    where r: "(case iterable of None \<Rightarrow> ok (l0, w1)
             | Some vs \<Rightarrow> bindR (push vs l0 w1) (\<lambda>(_, l', w'). ok (l', w'))) = ok (l2, w2)"
      and c2: "container l2 w2 as"
      and ct2: "contents w2 as = (case iterable of None \<Rightarrow> [] | Some vs \<Rightarrow> vs)"
      and f2: "useSkipLinks l2 = skipLinks" "observable l2 = obs" "transaction l2 = None"
    by blast
  from c2 have wl2: "well_linked l2 w2 as" and sz2: "lsize l2 = int (length as)"
    by (simp_all add: container_def)
  define B where "B = useSkipLinks l2"
  have "\<exists>w3. (if B then updateSkipLinks l2 w2 else ok w2) = ok w3 \<and>
          well_linked l2 w3 as \<and> contents w3 as = contents w2 as"
    using updateSkipLinks_container [OF wl2] wl2 by (cases B) auto
  then obtain w3 where u: "(if B then updateSkipLinks l2 w2 else ok w2) = ok w3"
    and wl3: "well_linked l2 w3 as" and ct3: "contents w3 as = contents w2 as"
    by blast
  have "construct iterable skipLinks obs w = ok (l2, w3)"
    unfolding eq r using u by (simp add: B_def)
  moreover have "container l2 w3 as" using wl3 sz2 by (simp add: container_def)
  ultimately show ?thesis
    using ct2 ct3 f2 by (intro exI [of _ l2] exI [of _ w3] exI [of _ as]) simp
qed

section \<open>Out-of-bounds indices and empty containers\<close>

lemma nodeAt_out_of_bounds:
  assumes "r = (if index < 0 then lsize l + index else index)" and "r < 0 \<or> lsize l \<le> r"
  shows "nodeAt index l w = ok (None, -1)"
  using assms by (auto simp: nodeAt_def Let_def)

text \<open>C9. For a container of size \<open>n\<close> and an index whose resolution \<open>r\<close> (\<open>n + index\<close> for a
  negative index) is outside \<open>[0, n - 1]\<close>: \<^verbatim>\<open>get\<close> returns \<^verbatim>\<open>undefined\<close>, \<^verbatim>\<open>set\<close> returns
  \<^verbatim>\<open>false\<close> and \<^verbatim>\<open>removeAt\<close> returns \<^verbatim>\<open>undefined\<close>; none throws, and the container and the
  store (nodes, transaction buffers, listener trace) are unchanged.\<close>

theorem out_of_bounds_is_lenient:
  assumes "r = (if index < 0 then lsize l + index else index)" and "r < 0 \<or> lsize l \<le> r"
  shows "get index l w = ok None \<and>
         setL index v l w = ok (False, l, w) \<and>
         removeAt index l w = ok (None, l, w)"
  by (simp add: get_def setL_def removeAt_def nodeAt_out_of_bounds [OF assms])

theorem out_of_bounds_is_lenient_witness:
  "get 3 ex_list ex_world = ok None \<and>
   setL 3 (Some 5) ex_list ex_world = ok (False, ex_list, ex_world) \<and>
   removeAt 3 ex_list ex_world = ok (None, ex_list, ex_world) \<and>
   get (- 4) ex_list ex_world = ok None \<and>
   setL (- 4) (Some 5) ex_list ex_world = ok (False, ex_list, ex_world) \<and>
   removeAt (- 4) ex_list ex_world = ok (None, ex_list, ex_world)"
  using out_of_bounds_is_lenient [of 3 3 ex_list ex_world "Some 5"]
    out_of_bounds_is_lenient [of "- 1" "- 4" ex_list ex_world "Some 5"]
  by (simp add: ex_list_def)

text \<open>C10. On an empty container (\<^verbatim>\<open>_size\<close> is 0) \<^verbatim>\<open>pop()\<close> and \<^verbatim>\<open>shift()\<close> return
  \<^verbatim>\<open>undefined\<close> and leave the container and the store as they were: the size, the
  modification counter, the transaction buffers and the listener trace are unchanged.\<close>

theorem pop_shift_on_empty:
  assumes "lsize l = 0"
  shows "pop l w = ok (None, l, w) \<and> shift l w = ok (None, l, w)"
  using assms by (simp add: pop_def shift_def)

theorem pop_shift_on_empty_witness:
  "pop ex_empty ex_empty_world = ok (None, ex_empty, ex_empty_world) \<and>
   shift ex_empty ex_empty_world = ok (None, ex_empty, ex_empty_world)"
  using pop_shift_on_empty [of ex_empty ex_empty_world]
  by (simp add: ex_empty_def)

section \<open>Transactions\<close>

lemma toArray_loop_past_tail:
  "successively (\<lambda>x y. nxt (c x) = Some y) (p # as @ [t]) \<Longrightarrow> nxt (c t) = None \<Longrightarrow>
   t' \<notin> set (as @ [t]) \<Longrightarrow> toArray_loop t' c (nxt (c p)) acc = Some (Inl TypeError)"
proof (induction as arbitrary: p acc)
  case Nil
  then have n: "nxt (c p) = Some t" and tt: "t \<noteq> t'" by auto
  have "toArray_loop t' c None (acc @ [val (c t)]) = Some (Inl TypeError)"
    by (subst toArray_loop.simps) simp
  then show ?case
    using Nil.prems(2) by (subst toArray_loop.simps) (simp add: n tt)
next
  case (Cons a as)
  from Cons.prems have n: "nxt (c p) = Some a" and at: "a \<noteq> t'"
    and rest: "successively (\<lambda>x y. nxt (c x) = Some y) (a # as @ [t])"
    and t: "t' \<notin> set (as @ [t])"
    by auto
  show ?case
    by (subst toArray_loop.simps) (simp add: n at Cons.IH [OF rest Cons.prems(2) t])
qed

text \<open>On every well-formed container, \<^verbatim>\<open>begin()\<close> followed at once by \<^verbatim>\<open>rollback()\<close> leaves a
  container whose \<^verbatim>\<open>toArray()\<close> throws: the walk starts from the copied head, runs through
  the chain to the old tail, which is not the copied tail, and reads \<^verbatim>\<open>null.value\<close>.\<close>

lemma rollback_breaks_container:
  assumes c: "container l w as" and inactive: "\<not> active (txns w t)"
  shows "toArray (fst (txn_rollback t l (txn_begin t l w)))
                 (snd (txn_rollback t l (txn_begin t l w))) = throw TypeError"
proof -
  let ?h' = "fresh w" and ?t' = "Suc (fresh w)"
  let ?c2 = "(cells w)(?h' := cells w (head l), ?t' := cells w (tail l))"
  from c have wl: "well_linked l w as" and sz: "lsize l = int (length as)"
    by (simp_all add: container_def)
  from wl have succ: "successively (adj (cells w)) (head l # as @ [tail l])"
    and tn: "nxt (cells w (tail l)) = None"
    and below: "list_all (\<lambda>a. a < fresh w) (head l # as @ [tail l])"
    unfolding well_linked_def Let_def by blast+
  from below have old: "\<And>x. x \<in> set (head l # as @ [tail l]) \<Longrightarrow> x \<noteq> ?h' \<and> x \<noteq> ?t'"
    by (auto simp: list_all_iff)
  have hl: "head l \<noteq> ?t'" "tail l \<noteq> ?h'" "tail l \<noteq> ?t'" using old by auto
  have same: "\<And>x. x \<in> set (head l # as @ [tail l]) \<Longrightarrow> ?c2 x = cells w x"
    using old by auto
  have fwd: "successively (\<lambda>x y. nxt (?c2 x) = Some y) (head l # as @ [tail l])"
  proof (rule successively_mono [OF adj_fwd [OF succ]])
    fix x y assume "x \<in> set (head l # as @ [tail l])" "nxt (cells w x) = Some y"
    then show "nxt (?c2 x) = Some y" using same [of x] by simp
  qed
  have tn2: "nxt (?c2 (tail l)) = None" using hl tn by simp
  have nt: "?t' \<notin> set (as @ [tail l])" using old by auto
  have "toArray_loop ?t' ?c2 (nxt (?c2 (head l))) [] = Some (Inl TypeError)"
    by (rule toArray_loop_past_tail [OF fwd tn2 nt])
  moreover have "nxt (?c2 ?h') = nxt (?c2 (head l))" using hl old [of "head l"] by simp
  ultimately have loop: "toArray_loop ?t' ?c2 (nxt (?c2 ?h')) [] = Some (Inl TypeError)" by simp
  have "txn_rollback t l (txn_begin t l w) =
          (l\<lparr>head := ?h', tail := ?t', lsize := lsize l, transaction := None\<rparr>,
           (txn_begin t l w)\<lparr>txns := (txns (txn_begin t l w))
                  (t := (txns (txn_begin t l w) t)\<lparr>active := False, events := []\<rparr>),
              delivered := delivered (txn_begin t l w) @ map (\<lambda>k. (k, Rollback)) (listeners l)\<rparr>)"
    using inactive by (simp add: txn_rollback_def txn_begin_def Let_def)
  moreover have "cells (txn_begin t l w) = ?c2"
    using inactive hl by (simp add: txn_begin_def Let_def)
  ultimately show ?thesis
    using sz loop by (simp add: toArray_def throw_def bindR_def)
qed

text \<open>C1. Rollback does not restore the contents. In the run of the specification's example,
  \<^verbatim>\<open>push\<close> commits the active transaction, the later \<^verbatim>\<open>rollback()\<close> does nothing and the
  contents stay \<^verbatim>\<open>[20, 30, 40]\<close>. With \<^verbatim>\<open>append\<close> in place of \<^verbatim>\<open>push\<close>, and even with no
  mutation at all, the rollback installs the copied sentinels, which no node of the chain
  points to, and \<^verbatim>\<open>toArray()\<close> throws a \<^verbatim>\<open>TypeError\<close> (as it does on every well-formed
  container, by the lemma above).\<close>

theorem rollback_does_not_restore:
  "rollback_after_push = ok [Some 20, Some 30, Some 40] \<and>
   rollback_after_append = throw TypeError \<and>
   rollback_at_once = throw TypeError"
  by code_simp

text \<open>C2. Events reach the listener before the caller commits. After \<^verbatim>\<open>set(0, 99)\<close> nothing
  has been delivered; \<^verbatim>\<open>push(40)\<close> commits the transaction itself and delivers the
  buffered update, and \<^verbatim>\<open>removeAt(0)\<close> then notifies directly. The caller's \<^verbatim>\<open>commit()\<close>
  delivers nothing, and the addition of 40 is never reported. In the specification's
  own example the listener sees the removal before the transaction is ended.\<close>

theorem events_delivered_before_commit:
  "transaction_trace =
     ok ([],
         [(7, Update 0 (Some 10) (Some 99)), (7, Remove (Some 99))],
         [(7, Update 0 (Some 10) (Some 99)), (7, Remove (Some 99))]) \<and>
   example_trace = ok [(7, Remove (Some 10))]"
  by code_simp

section \<open>Skip-links\<close>

text \<open>C3. A stale skip-link changes the value returned by \<^verbatim>\<open>get\<close>. After \<^verbatim>\<open>insertAt(100, 1)\<close>
  on nine elements the contents are the same with and without skip-links, but
  \<^verbatim>\<open>get(3)\<close> returns 2 without skip-links and 3 with them.\<close>

theorem stale_skip_link_changes_get:
  "seek_scenario False =
     ok ([Some 0, Some 100, Some 1, Some 2, Some 3, Some 4, Some 5, Some 6, Some 7, Some 8],
         Some 2) \<and>
   seek_scenario True =
     ok ([Some 0, Some 100, Some 1, Some 2, Some 3, Some 4, Some 5, Some 6, Some 7, Some 8],
         Some 3)"
  by code_simp

text \<open>The same defect breaks the element count: the second \<^verbatim>\<open>removeAt(3)\<close> reaches, through a
  stale skip-link, the node already removed, returns its value again and decrements
  \<^verbatim>\<open>_size\<close> while the chain keeps nine nodes.\<close>

lemma stale_skip_link_breaks_count:
  "count_scenario =
     ok (Some 3, Some 3, 8,
         [Some 0, Some 1, Some 2, Some 4, Some 5, Some 6, Some 7, Some 8, Some 9])"
  by code_simp

section \<open>Sorting\<close>

text \<open>C6. The sort is not stable. Two elements with equal keys, \<^verbatim>\<open>[1,'b']\<close> before
  \<^verbatim>\<open>[1,'a']\<close> in the container, come out in the other order: the tie is broken by the
  nodes' insertion numbers, and the element prepended later has the larger one.\<close>

theorem sort_is_not_stable:
  "sort_scenario =
     ok ([Some (1, ''b''), Some (1, ''a'')], [Some (1, ''a''), Some (1, ''b'')])"
  by code_simp

section \<open>Concatenation of two containers\<close>

text \<open>C7. For containers \<open>A\<close> (nodes \<open>as\<close>, size \<open>m\<close>) and \<open>B\<close> (nodes \<open>bs\<close>, size \<open>n\<close>), two
  objects with no node in common: \<^verbatim>\<open>A.concat(B)\<close> returns, after it \<^verbatim>\<open>A.length\<close> is \<open>m + n\<close>,
  \<^verbatim>\<open>B.length\<close> is 0, and \<^verbatim>\<open>A.toArray()\<close> is the former \<^verbatim>\<open>A.toArray()\<close> followed by the
  former \<^verbatim>\<open>B.toArray()\<close>; \<open>m\<close> and \<open>n\<close> may be 0, and skip-links may be on or off.\<close>

theorem concat_moves_donor:
  assumes "container l w as" and "container other w bs"
    and "set (head l # as @ [tail l]) \<inter> set (head other # bs @ [tail other]) = {}"
  shows "toArray l w = ok (contents w as) \<and> toArray other w = ok (contents w bs) \<and>
         (\<exists>l' other' w'. concatL l other w = ok (l', other', w') \<and>
            lsize l' = lsize l + lsize other \<and> lsize other' = 0 \<and>
            toArray l' w' = ok (contents w as @ contents w bs) \<and>
            toArray other' w' = ok [])"
proof (intro conjI)
  show "toArray l w = ok (contents w as)" by (rule toArray_container [OF assms(1)])
  show "toArray other w = ok (contents w bs)" by (rule toArray_container [OF assms(2)])
  show "\<exists>l' other' w'. concatL l other w = ok (l', other', w') \<and>
            lsize l' = lsize l + lsize other \<and> lsize other' = 0 \<and>
            toArray l' w' = ok (contents w as @ contents w bs) \<and>
            toArray other' w' = ok []"
  proof (cases "bs = []")
    case True
    with assms(2) have z: "lsize other = 0" by (simp add: container_def)
    have "toArray other w = ok []"
      using toArray_container [OF assms(2)] True by (simp add: contents_def)
    with z True toArray_container [OF assms(1)] show ?thesis
      by (simp add: concatL_empty_donor contents_def)
  next
    case False
    from concatL_container [OF assms(1,2) False assms(3)] obtain l' other' w'
      where r: "concatL l other w = ok (l', other', w')"
        and c1: "container l' w' (as @ bs)" and c2: "container other' w' []"
        and ct: "contents w' (as @ bs) = contents w as @ contents w bs"
        and sz: "lsize l' = lsize l + lsize other"
      by blast
    from c2 have "lsize other' = 0" by (simp add: container_def)
    moreover have "toArray l' w' = ok (contents w as @ contents w bs)"
      using toArray_container [OF c1] ct by simp
    moreover have "toArray other' w' = ok []"
      using toArray_container [OF c2] by (simp add: contents_def)
    ultimately show ?thesis using r sz by blast
  qed
qed

theorem concat_moves_donor_witness:
  "toArray ex_list ex_world = ok [Some 10, Some 20, Some 30] \<and>
   toArray ex_donor ex_world = ok [Some 40, Some 50] \<and>
   (\<exists>l' other' w'. concatL ex_list ex_donor ex_world = ok (l', other', w') \<and>
      lsize l' = 5 \<and> lsize other' = 0 \<and>
      toArray l' w' = ok [Some 10, Some 20, Some 30, Some 40, Some 50] \<and>
      toArray other' w' = ok [])"
proof -
  have d: "set (head ex_list # [2, 3, 4] @ [tail ex_list])
             \<inter> set (head ex_donor # [7, 8] @ [tail ex_donor]) = {}"
    by (simp add: ex_list_def ex_donor_def)
  have a: "contents ex_world [2, 3, 4] = [Some 10, Some 20, Some 30]"
    and b: "contents ex_world [7, 8] = [Some 40, Some 50]"
    by (simp_all add: contents_def ex_world_def ex_cells_def)
  have s: "lsize ex_list + lsize ex_donor = 5"
    by (simp add: ex_list_def ex_donor_def)
  show ?thesis
    using concat_moves_donor [OF ex_list_container ex_donor_container d]
    unfolding a b s by simp
qed

section \<open>Insertion position\<close>

lemma setL_same_list: "setL index v l w = ok (b, l', w') \<Longrightarrow> l' = l"
  by (auto simp: setL_def bindR_def ok_def Let_def split: option.splits sum.splits prod.splits)

lemma insertAt_out_of_bounds:
  assumes "r = (if index < 0 then lsize l + index + 1 else index)" and "r < 0 \<or> lsize l < r"
  shows "insertAt v index l w = throw RangeError"
  using assms by (auto simp: insertAt_def Let_def)

lemma iter_next_stale:
  "expectedModCount it \<noteq> modCount l \<Longrightarrow> iter_next it l w = throw ConcurrentModification"
  by (simp add: iter_next_def)

lemma iter_next_current:
  "expectedModCount it = modCount l \<Longrightarrow> iter_next it l w \<noteq> throw ConcurrentModification"
  by (auto simp: iter_next_def Let_def ok_def throw_def split: option.splits)

lemma ex_list_contents: "contents ex_world [2, 3, 4] = [Some 10, Some 20, Some 30]"
  by (simp add: contents_def ex_world_def ex_cells_def)

text \<open>C5, as stated, fails: a negative index \<open>i\<close> is not resolved as \<open>n + i\<close>. On
  \<^verbatim>\<open>[1, 2, 3]\<close>, \<^verbatim>\<open>insertAt(9, -1)\<close> appends (position 3, not 2), and \<^verbatim>\<open>insertAt(9, -4)\<close>
  succeeds and prepends, where \<open>n + i = -1\<close> would be out of bounds.\<close>

theorem insertAt_negative_index_counterexample:
  "insertAt_scenario (- 1) = ok [Some 1, Some 2, Some 3, Some 9] \<and>
   insertAt_scenario (- 4) = ok [Some 9, Some 1, Some 2, Some 3]"
  by code_simp

text \<open>C5, amended. \<^verbatim>\<open>insertAt(value, i)\<close> resolves a negative \<open>i\<close> as \<open>n + i + 1\<close>. When the
  resolved index \<open>r\<close> is outside \<open>[0, n]\<close> it throws a \<^verbatim>\<open>RangeError\<close>. When \<open>r\<close> is in
  \<open>[0, n]\<close>, on a well-formed container, it returns with the value at position \<open>r\<close> and
  the other elements in their order, provided the seek for the predecessor does not go
  through skip-links (insertion at either end makes no seek).\<close>

theorem insertAt_resolves_end_relative:
  assumes r: "r = (if index < 0 then lsize l + index + 1 else index)"
  shows "(r < 0 \<or> lsize l < r \<longrightarrow> insertAt v index l w = throw RangeError) \<and>
         (0 \<le> r \<and> r \<le> lsize l \<and> container l w as \<and>
          (r = 0 \<or> r = lsize l \<or> linear_seek l (r - 1)) \<longrightarrow>
            toArray l w = ok (contents w as) \<and>
            (\<exists>l' w'. insertAt v index l w = ok (l', w') \<and> lsize l' = lsize l + 1 \<and>
               toArray l' w' = ok (take (nat r) (contents w as) @ v # drop (nat r) (contents w as))))"
proof (intro conjI impI)
  assume "r < 0 \<or> lsize l < r"
  then show "insertAt v index l w = throw RangeError"
    by (rule insertAt_out_of_bounds [OF r])
next
  assume a: "0 \<le> r \<and> r \<le> lsize l \<and> container l w as \<and>
          (r = 0 \<or> r = lsize l \<or> linear_seek l (r - 1))"
  then show "toArray l w = ok (contents w as)" by (intro toArray_container) blast
next
  assume a: "0 \<le> r \<and> r \<le> lsize l \<and> container l w as \<and>
          (r = 0 \<or> r = lsize l \<or> linear_seek l (r - 1))"
  then have c: "container l w as" and lin: "r = 0 \<or> r = lsize l \<or> linear_seek l (r - 1)"
    and range: "0 \<le> r" "r \<le> lsize l"
    by blast+
  from insertAt_container [OF c lin r range, of v] obtain l' w' a
    where res: "insertAt v index l w = ok (l', w')"
      and c': "container l' w' (take (nat r) as @ a # drop (nat r) as)"
      and ct: "contents w' (take (nat r) as @ a # drop (nat r) as)
                 = take (nat r) (contents w as) @ v # drop (nat r) (contents w as)"
      and sz: "lsize l' = lsize l + 1"
    by blast
  from toArray_container [OF c'] ct
  have "toArray l' w' = ok (take (nat r) (contents w as) @ v # drop (nat r) (contents w as))"
    by simp
  with res sz
  show "\<exists>l' w'. insertAt v index l w = ok (l', w') \<and> lsize l' = lsize l + 1 \<and>
          toArray l' w' = ok (take (nat r) (contents w as) @ v # drop (nat r) (contents w as))"
    by blast
qed

theorem insertAt_resolves_end_relative_witness:
  "toArray ex_list ex_world = ok [Some 10, Some 20, Some 30] \<and>
   insertAt (Some 9) (- 5) ex_list ex_world = throw RangeError \<and>
   insertAt (Some 9) 4 ex_list ex_world = throw RangeError \<and>
   (\<exists>l' w'. insertAt (Some 9) (- 1) ex_list ex_world = ok (l', w') \<and> lsize l' = 4 \<and>
      toArray l' w' = ok [Some 10, Some 20, Some 30, Some 9]) \<and>
   (\<exists>l' w'. insertAt (Some 9) (- 4) ex_list ex_world = ok (l', w') \<and> lsize l' = 4 \<and>
      toArray l' w' = ok [Some 9, Some 10, Some 20, Some 30]) \<and>
   (\<exists>l' w'. insertAt (Some 9) 1 ex_list ex_world = ok (l', w') \<and> lsize l' = 4 \<and>
      toArray l' w' = ok [Some 10, Some 9, Some 20, Some 30])"
proof -
  have sz: "lsize ex_list = 3" by (simp add: ex_list_def)
  have lin: "linear_seek ex_list 0" by (simp add: ex_list_def linear_seek_def)
  show ?thesis
    using ex_list_container lin
      insertAt_resolves_end_relative [of "- 1" "- 5" ex_list "Some 9" ex_world "[2, 3, 4]"]
      insertAt_resolves_end_relative [of 4 4 ex_list "Some 9" ex_world "[2, 3, 4]"]
      insertAt_resolves_end_relative [of 3 "- 1" ex_list "Some 9" ex_world "[2, 3, 4]"]
      insertAt_resolves_end_relative [of 0 "- 4" ex_list "Some 9" ex_world "[2, 3, 4]"]
      insertAt_resolves_end_relative [of 1 1 ex_list "Some 9" ex_world "[2, 3, 4]"]
    unfolding ex_list_contents sz by simp
qed

section \<open>The modification counter and the element count\<close>




section \<open>Native iteration\<close>




end
